theory Spec2Isabelle
  imports Complex_Main
begin

section \<open>JavaScript numbers\<close>

text \<open>
  The rate and the interval of the queue are JavaScript numbers. The finite ones are
  modelled by rationals with exact arithmetic (the rounding of IEEE doubles is not
  modelled, and neither is the negative zero); the three special values are kept, because
  the constructor can produce them: \<^verbatim>\<open>1000 / undefined\<close> is \<^verbatim>\<open>NaN\<close> and
  \<^verbatim>\<open>1000 / 0\<close> is \<^verbatim>\<open>Infinity\<close>.
\<close>

datatype jsnum = JNum rat | PosInf | NegInf | NaN

text \<open>The operator \<^verbatim>\<open>/\<close>.\<close>

fun js_div :: "jsnum \<Rightarrow> jsnum \<Rightarrow> jsnum" where
  "js_div NaN y = NaN"
| "js_div x NaN = NaN"
| "js_div (JNum a) (JNum b) =
     (if b = 0 then (if a = 0 then NaN else if 0 < a then PosInf else NegInf)
      else JNum (a / b))"
| "js_div (JNum a) PosInf = JNum 0"
| "js_div (JNum a) NegInf = JNum 0"
| "js_div PosInf (JNum b) = (if b < 0 then NegInf else PosInf)"
| "js_div NegInf (JNum b) = (if b < 0 then PosInf else NegInf)"
| "js_div PosInf y = NaN"
| "js_div NegInf y = NaN"

text \<open>The operator \<^verbatim>\<open>-\<close>.\<close>

fun js_sub :: "jsnum \<Rightarrow> jsnum \<Rightarrow> jsnum" where
  "js_sub NaN y = NaN"
| "js_sub x NaN = NaN"
| "js_sub (JNum a) (JNum b) = JNum (a - b)"
| "js_sub (JNum a) PosInf = NegInf"
| "js_sub (JNum a) NegInf = PosInf"
| "js_sub PosInf (JNum b) = PosInf"
| "js_sub NegInf (JNum b) = NegInf"
| "js_sub PosInf NegInf = PosInf"
| "js_sub NegInf PosInf = NegInf"
| "js_sub PosInf PosInf = NaN"
| "js_sub NegInf NegInf = NaN"

text \<open>The operator \<^verbatim>\<open>>\<close>: every comparison with \<^verbatim>\<open>NaN\<close> is false.\<close>

fun js_gt :: "jsnum \<Rightarrow> jsnum \<Rightarrow> bool" where
  "js_gt NaN y = False"
| "js_gt x NaN = False"
| "js_gt (JNum a) (JNum b) = (b < a)"
| "js_gt PosInf PosInf = False"
| "js_gt PosInf y = True"
| "js_gt x PosInf = False"
| "js_gt NegInf y = False"
| "js_gt x NegInf = True"

text \<open>\<^verbatim>\<open>Math.max\<close> of two numbers: \<^verbatim>\<open>NaN\<close> when either is.\<close>

definition js_max :: "jsnum \<Rightarrow> jsnum \<Rightarrow> jsnum" where
  "js_max x y = (if x = NaN \<or> y = NaN then NaN else if js_gt y x then y else x)"

text \<open>A number in a boolean position: zero and \<^verbatim>\<open>NaN\<close> are falsy.\<close>

definition js_truthy :: "jsnum \<Rightarrow> bool" where
  "js_truthy x = (x \<noteq> JNum 0 \<and> x \<noteq> NaN)"

section \<open>The queue and its environment\<close>

text \<open>
  An operation is a value of type \<open>'op\<close>; equality on \<open>'op\<close> is the reference identity
  \<^verbatim>\<open>===\<close> of function objects. Calling an operation either returns a value or throws
  one, as a function \<open>run\<close> says, which every executing definition takes as its first
  argument. A returned value is a plain value or a thenable (a promise), which is
  modelled by the state it is in: fulfilled, rejected, or pending for good. A thrown
  value is taken as it is.
\<close>

datatype 'a promiseState = Pending | Fulfilled 'a | Rejected 'a

datatype 'a returned = Plain 'a | Thenable "'a promiseState"

datatype 'a outcome = Return "'a returned" | Throw 'a

text \<open>
  A task item \<^verbatim>\<open>{task, resolve, reject}\<close>: the two callbacks belong to one promise, which
  the model names by its number.
\<close>

record 'op taskItem =
  task :: 'op
  promise :: nat

text \<open>
  The fields of a \<^verbatim>\<open>PromiseQueue\<close> object, followed by the part of the environment it
  acts on: the outstanding timeouts (handle and requested delay) with the next fresh
  handle, the number of promises created, the operations called so far, and the calls of
  \<^verbatim>\<open>resolve\<close> and \<^verbatim>\<open>reject\<close> made so far (promise and value), both in order.
  The queue is constructed without a logger, so the debug calls are not taken.
  A timeout handle is a positive integer or a \<^verbatim>\<open>Timeout\<close> object, hence truthy:
  \<open>Some h\<close> is a truthy handle, \<open>None\<close> is \<^verbatim>\<open>null\<close>. Timeouts and intervals share
  their handles, so \<^verbatim>\<open>clearInterval\<close> cancels a timeout.
\<close>

record ('op, 'a) queue =
  maxCallsPerSecond :: jsnum
  tasks :: "'op taskItem list"
  isActive :: bool
  jobIntervalMillis :: jsnum
  lastTaskTimestamp :: "int option"
  currentTaskTimeoutId :: "nat option"
  timers :: "(nat \<times> jsnum) list"
  nextTimerId :: nat
  promiseCount :: nat
  called :: "'op list"
  settled :: "(nat \<times> 'a outcome) list"

text \<open>
  The state of a promise, from the calls of its resolving functions: the first call
  counts, later ones are ignored. \<^verbatim>\<open>resolve\<close> with a plain value fulfils the promise;
  \<^verbatim>\<open>resolve\<close> with a thenable makes the promise follow the thenable, so that its state
  is the thenable's; \<^verbatim>\<open>reject\<close> rejects the promise with the value given.
\<close>

definition promiseState :: "('op, 'a) queue \<Rightarrow> nat \<Rightarrow> 'a promiseState" where
  "promiseState q p =
     (case find (\<lambda>s. fst s = p) (settled q) of
        None \<Rightarrow> Pending
      | Some (_, Return (Plain v)) \<Rightarrow> Fulfilled v
      | Some (_, Return (Thenable st)) \<Rightarrow> st
      | Some (_, Throw e) \<Rightarrow> Rejected e)"

definition resolve :: "nat \<Rightarrow> 'a returned \<Rightarrow> ('op, 'a) queue \<Rightarrow> ('op, 'a) queue" where
  "resolve p v q = q\<lparr>settled := settled q @ [(p, Return v)]\<rparr>"

definition reject :: "nat \<Rightarrow> 'a \<Rightarrow> ('op, 'a) queue \<Rightarrow> ('op, 'a) queue" where
  "reject p e q = q\<lparr>settled := settled q @ [(p, Throw e)]\<rparr>"

definition setTimeout :: "jsnum \<Rightarrow> ('op, 'a) queue \<Rightarrow> nat \<times> ('op, 'a) queue" where
  "setTimeout delay q =
     (nextTimerId q,
      q\<lparr>timers := timers q @ [(nextTimerId q, delay)], nextTimerId := Suc (nextTimerId q)\<rparr>)"

definition clearInterval :: "nat \<Rightarrow> ('op, 'a) queue \<Rightarrow> ('op, 'a) queue" where
  "clearInterval h q = q\<lparr>timers := filter (\<lambda>t. fst t \<noteq> h) (timers q)\<rparr>"

section \<open>src/promise-queue-rate-limited.js\<close>

text \<open>
  The constructor. Its argument is \<open>None\<close> when the caller passes none
  (\<^verbatim>\<open>undefined\<close>, which is \<^verbatim>\<open>NaN\<close> as a number).
\<close>

definition PromiseQueue :: "jsnum option \<Rightarrow> ('op, 'a) queue" where
  "PromiseQueue maxCallsPerSecondArg =
     \<lparr> maxCallsPerSecond = (case maxCallsPerSecondArg of None \<Rightarrow> JNum 1 | Some r \<Rightarrow> r),
       tasks = [],
       isActive = False,
       jobIntervalMillis =
         js_div (JNum 1000) (case maxCallsPerSecondArg of None \<Rightarrow> NaN | Some r \<Rightarrow> r),
       lastTaskTimestamp = None,
       currentTaskTimeoutId = None,
       timers = [],
       nextTimerId = 1,
       promiseCount = 0,
       called = [],
       settled = [] \<rparr>"

definition getMaxCallsPerSecond :: "('op, 'a) queue \<Rightarrow> jsnum" where
  "getMaxCallsPerSecond q = maxCallsPerSecond q"

definition isStarted :: "('op, 'a) queue \<Rightarrow> bool" where
  "isStarted q = isActive q"

definition isStopped :: "('op, 'a) queue \<Rightarrow> bool" where
  "isStopped q = (\<not> isStarted q)"

definition isEmpty :: "('op, 'a) queue \<Rightarrow> bool" where
  "isEmpty q = (length (tasks q) = 0)"

definition isNotEmpty :: "('op, 'a) queue \<Rightarrow> bool" where
  "isNotEmpty q = (\<not> isEmpty q)"

definition getQueueSize :: "('op, 'a) queue \<Rightarrow> nat" where
  "getQueueSize q = length (tasks q)"

text \<open>
  \<^verbatim>\<open>processNextTask\<close>: \<^verbatim>\<open>shift()\<close> of an empty array is \<^verbatim>\<open>undefined\<close>, and then
  nothing is done. Here the operation called does nothing to the queue it is queued on;
  \<open>processNextTask_re\<close> below is the same function for operations that call the queue.
\<close>

definition processNextTask :: "('op \<Rightarrow> 'a outcome) \<Rightarrow> ('op, 'a) queue \<Rightarrow> ('op, 'a) queue" where
  "processNextTask run q =
     (case tasks q of
        [] \<Rightarrow> q
      | nextTaskItem # rest \<Rightarrow>
          (let q1 = q\<lparr>tasks := rest, called := called q @ [task nextTaskItem]\<rparr>
           in case run (task nextTaskItem) of
                Return result \<Rightarrow> resolve (promise nextTaskItem) result q1
              | Throw e \<Rightarrow> reject (promise nextTaskItem) e q1))"

text \<open>\<^verbatim>\<open>scheduleNext\<close>: arms the timeout whose callback is \<open>timerCallback\<close> below.\<close>

definition scheduleNext :: "jsnum \<Rightarrow> ('op, 'a) queue \<Rightarrow> ('op, 'a) queue" where
  "scheduleNext timeoutMillisOverride q =
     (if isEmpty q then q\<lparr>currentTaskTimeoutId := None\<rparr>
      else (case setTimeout timeoutMillisOverride q of
              (h, q1) \<Rightarrow> q1\<lparr>currentTaskTimeoutId := Some h\<rparr>))"

text \<open>The function given to \<^verbatim>\<open>setTimeout\<close>; \<open>now\<close> is what \<^verbatim>\<open>Date.now()\<close> returns.\<close>

definition timerCallback :: "('op \<Rightarrow> 'a outcome) \<Rightarrow> int \<Rightarrow> ('op, 'a) queue \<Rightarrow> ('op, 'a) queue" where
  "timerCallback run now q =
     (let q1 = processNextTask run (q\<lparr>lastTaskTimestamp := Some now\<rparr>)
      in scheduleNext (jobIntervalMillis q1) q1)"

text \<open>
  The environment fires an outstanding timeout: the timeout is no longer outstanding, and
  its callback runs. A handle that is not outstanding does not fire.
\<close>

definition fire :: "('op \<Rightarrow> 'a outcome) \<Rightarrow> int \<Rightarrow> nat \<Rightarrow> ('op, 'a) queue \<Rightarrow> ('op, 'a) queue" where
  "fire run now h q =
     (if h \<in> set (map fst (timers q)) then timerCallback run now (clearInterval h q) else q)"

text \<open>
  \<^verbatim>\<open>updateTaskSchedule\<close>. The timestamp is tested for truthiness, so a timestamp of 0
  counts as none.
\<close>

definition updateTaskSchedule :: "int \<Rightarrow> ('op, 'a) queue \<Rightarrow> ('op, 'a) queue" where
  "updateTaskSchedule now q =
     (if isEmpty q \<or> isStopped q then q
      else if currentTaskTimeoutId q = None then
        (case lastTaskTimestamp q of
           None \<Rightarrow> scheduleNext (JNum 0) q
         | Some lastTs \<Rightarrow>
             if lastTs = 0 then scheduleNext (JNum 0) q
             else
               (let passedTime = JNum (of_int (now - lastTs))
                in if js_gt passedTime (jobIntervalMillis q)
                   then scheduleNext (jobIntervalMillis q) q
                   else scheduleNext
                          (js_max (JNum 0) (js_sub (jobIntervalMillis q) passedTime)) q))
      else q)"

definition start :: "int \<Rightarrow> ('op, 'a) queue \<Rightarrow> bool \<times> ('op, 'a) queue" where
  "start now q =
     (if isActive q then (False, q)
      else (True, updateTaskSchedule now (q\<lparr>isActive := True\<rparr>)))"

definition stop :: "('op, 'a) queue \<Rightarrow> ('op, 'a) queue" where
  "stop q =
     (if isActive q then
        (let q1 = q\<lparr>isActive := False\<rparr>
         in case currentTaskTimeoutId q1 of
              Some h \<Rightarrow> (clearInterval h q1)\<lparr>currentTaskTimeoutId := None, lastTaskTimestamp := None\<rparr>
            | None \<Rightarrow> q1)
      else q)"

text \<open>
  \<^verbatim>\<open>add\<close> returns the new promise. The promise's executor runs at once and queues the
  item; then the schedule is updated.
\<close>

definition add :: "int \<Rightarrow> 'op \<Rightarrow> bool \<Rightarrow> ('op, 'a) queue \<Rightarrow> nat \<times> ('op, 'a) queue" where
  "add now t toTail q =
     (let p = promiseCount q;
          newTaskItem = \<lparr>task = t, promise = p\<rparr>;
          q1 = q\<lparr>promiseCount := Suc p\<rparr>;
          q2 = (if isEmpty q1 \<or> toTail then q1\<lparr>tasks := tasks q1 @ [newTaskItem]\<rparr>
                else q1\<lparr>tasks := newTaskItem # tasks q1\<rparr>)
      in (p, updateTaskSchedule now q2))"

definition append_q :: "int \<Rightarrow> 'op \<Rightarrow> ('op, 'a) queue \<Rightarrow> nat \<times> ('op, 'a) queue" where
  "append_q now t q = add now t True q"

definition prepend :: "int \<Rightarrow> 'op \<Rightarrow> ('op, 'a) queue \<Rightarrow> nat \<times> ('op, 'a) queue" where
  "prepend now t q = add now t False q"

text \<open>\<^verbatim>\<open>splice(i, 1)\<close>.\<close>

definition splice1 :: "nat \<Rightarrow> 'x list \<Rightarrow> 'x list" where
  "splice1 i xs = take i xs @ drop (Suc i) xs"

text \<open>
  The loop of \<^verbatim>\<open>remove\<close>, from index \<open>k - 1\<close> down to 0. Reading \<^verbatim>\<open>.task\<close> of an
  index outside the array would be a TypeError, the result \<open>None\<close>.
\<close>

fun remove_loop :: "'op \<Rightarrow> nat \<Rightarrow> 'op taskItem list \<Rightarrow> nat \<Rightarrow> ('op taskItem list \<times> nat) option" where
  "remove_loop t 0 xs removedItems = Some (xs, removedItems)"
| "remove_loop t (Suc i) xs removedItems =
     (if i < length xs then
        (if task (xs ! i) = t then remove_loop t i (splice1 i xs) (removedItems + 1)
         else remove_loop t i xs removedItems)
      else None)"

definition remove :: "'op \<Rightarrow> ('op, 'a) queue \<Rightarrow> (nat \<times> ('op, 'a) queue) option" where
  "remove t q =
     (if isEmpty q then Some (0, q)
      else (case remove_loop t (length (tasks q)) (tasks q) 0 of
              None \<Rightarrow> None
            | Some (xs, removedItems) \<Rightarrow> Some (removedItems, q\<lparr>tasks := xs\<rparr>)))"

section \<open>Runs of the queue\<close>

text \<open>
  What can happen to a queue: a call of its interface, or the firing of a timeout. The
  integer is the time of the event.
\<close>

datatype 'op event =
    Start int
  | Stop
  | Add int 'op bool
  | Remove 'op
  | Fire int nat

definition step :: "('op \<Rightarrow> 'a outcome) \<Rightarrow> ('op, 'a) queue \<Rightarrow> 'op event \<Rightarrow> ('op, 'a) queue" where
  "step run q ev =
     (case ev of
        Start now \<Rightarrow> snd (start now q)
      | Stop \<Rightarrow> stop q
      | Add now t a \<Rightarrow> snd (add now t a q)
      | Remove t \<Rightarrow> (case remove t q of None \<Rightarrow> q | Some (n, q1) \<Rightarrow> q1)
      | Fire now h \<Rightarrow> fire run now h q)"

definition exec :: "('op \<Rightarrow> 'a outcome) \<Rightarrow> ('op, 'a) queue \<Rightarrow> 'op event list \<Rightarrow> ('op, 'a) queue" where
  "exec run q evs = foldl (step run) q evs"

text \<open>
  The event loop alone: at each of the given times, the first outstanding timeout (if
  there is one) fires.
\<close>

definition fireOutstanding :: "('op \<Rightarrow> 'a outcome) \<Rightarrow> ('op, 'a) queue \<Rightarrow> int \<Rightarrow> ('op, 'a) queue" where
  "fireOutstanding run q now =
     (case timers q of [] \<Rightarrow> q | t # ts \<Rightarrow> fire run now (fst t) q)"

definition runTimers :: "('op \<Rightarrow> 'a outcome) \<Rightarrow> int list \<Rightarrow> ('op, 'a) queue \<Rightarrow> ('op, 'a) queue" where
  "runTimers run nows q = foldl (fireOutstanding run) q nows"

definition appendAll :: "(int \<times> 'op) list \<Rightarrow> ('op, 'a) queue \<Rightarrow> ('op, 'a) queue" where
  "appendAll xs q = foldl (\<lambda>q x. snd (append_q (fst x) (snd x) q)) q xs"

section \<open>Operations that call the queue\<close>

text \<open>
  An operation has the queue in its scope and may call it while it runs: start it, stop
  it, add to it, remove from it. \<open>body\<close> gives the calls an operation makes, in order,
  before it returns or throws. None of the functions called runs a task, so the calls
  are the steps of above.
\<close>

datatype 'op call = CallStart | CallStop | CallAdd 'op bool | CallRemove 'op

definition doCall :: "int \<Rightarrow> ('op, 'a) queue \<Rightarrow> 'op call \<Rightarrow> ('op, 'a) queue" where
  "doCall now q c =
     (case c of
        CallStart \<Rightarrow> snd (start now q)
      | CallStop \<Rightarrow> stop q
      | CallAdd t a \<Rightarrow> snd (add now t a q)
      | CallRemove t \<Rightarrow> (case remove t q of None \<Rightarrow> q | Some (n, q1) \<Rightarrow> q1))"

definition processNextTask_re ::
    "('op \<Rightarrow> 'a outcome) \<Rightarrow> ('op \<Rightarrow> 'op call list) \<Rightarrow> int \<Rightarrow> ('op, 'a) queue \<Rightarrow> ('op, 'a) queue" where
  "processNextTask_re run body now q =
     (case tasks q of
        [] \<Rightarrow> q
      | nextTaskItem # rest \<Rightarrow>
          (let q1 = q\<lparr>tasks := rest, called := called q @ [task nextTaskItem]\<rparr>;
               q2 = foldl (doCall now) q1 (body (task nextTaskItem))
           in case run (task nextTaskItem) of
                Return result \<Rightarrow> resolve (promise nextTaskItem) result q2
              | Throw e \<Rightarrow> reject (promise nextTaskItem) e q2))"

definition timerCallback_re ::
    "('op \<Rightarrow> 'a outcome) \<Rightarrow> ('op \<Rightarrow> 'op call list) \<Rightarrow> int \<Rightarrow> ('op, 'a) queue \<Rightarrow> ('op, 'a) queue" where
  "timerCallback_re run body now q =
     (let q1 = processNextTask_re run body now (q\<lparr>lastTaskTimestamp := Some now\<rparr>)
      in scheduleNext (jobIntervalMillis q1) q1)"

definition fire_re ::
    "('op \<Rightarrow> 'a outcome) \<Rightarrow> ('op \<Rightarrow> 'op call list) \<Rightarrow> int \<Rightarrow> nat \<Rightarrow> ('op, 'a) queue \<Rightarrow> ('op, 'a) queue" where
  "fire_re run body now h q =
     (if h \<in> set (map fst (timers q)) then timerCallback_re run body now (clearInterval h q)
      else q)"

definition step_re ::
    "('op \<Rightarrow> 'a outcome) \<Rightarrow> ('op \<Rightarrow> 'op call list) \<Rightarrow> ('op, 'a) queue \<Rightarrow> 'op event \<Rightarrow> ('op, 'a) queue" where
  "step_re run body q ev =
     (case ev of
        Start now \<Rightarrow> snd (start now q)
      | Stop \<Rightarrow> stop q
      | Add now t a \<Rightarrow> snd (add now t a q)
      | Remove t \<Rightarrow> (case remove t q of None \<Rightarrow> q | Some (n, q1) \<Rightarrow> q1)
      | Fire now h \<Rightarrow> fire_re run body now h q)"

definition exec_re ::
    "('op \<Rightarrow> 'a outcome) \<Rightarrow> ('op \<Rightarrow> 'op call list) \<Rightarrow> ('op, 'a) queue \<Rightarrow> 'op event list \<Rightarrow> ('op, 'a) queue" where
  "exec_re run body q evs = foldl (step_re run body) q evs"

text \<open>
  What holds of the promises whatever the operations call: the promises of the running
  task, of the queued items and the settled promises are all different, and all were
  created.
\<close>

definition promisesKept :: "nat list \<Rightarrow> ('op, 'a) queue \<Rightarrow> bool" where
  "promisesKept running q =
     (distinct (running @ map promise (tasks q) @ map fst (settled q)) \<and>
      list_all (\<lambda>p. p < promiseCount q) (running @ map promise (tasks q) @ map fst (settled q)))"

section \<open>The earlier variant of the scheduler\<close>

text \<open>
  The repository holds a second file with the same class, whose constructor,
  \<^verbatim>\<open>stop\<close> and \<^verbatim>\<open>remove\<close> read as above, and whose \<^verbatim>\<open>start\<close> and \<^verbatim>\<open>add\<close> call
  an \<^verbatim>\<open>updateTaskSchedule\<close> that differs: it runs the head task at once when no task
  has run yet or the interval has passed, it does not look at
  \<^verbatim>\<open>currentTaskTimeoutId\<close>, and its timeouts do not re-arm themselves.
\<close>

definition processNextTask_part000 ::
    "('op \<Rightarrow> 'a outcome) \<Rightarrow> int \<Rightarrow> ('op, 'a) queue \<Rightarrow> ('op, 'a) queue" where
  "processNextTask_part000 run now q =
     (case tasks q of
        [] \<Rightarrow> q
      | nextTaskItem # rest \<Rightarrow>
          (let q1 = q\<lparr>tasks := rest, called := called q @ [task nextTaskItem]\<rparr>
           in case run (task nextTaskItem) of
                Return result \<Rightarrow>
                  resolve (promise nextTaskItem) result (q1\<lparr>lastTaskTimestamp := Some now\<rparr>)
              | Throw e \<Rightarrow> reject (promise nextTaskItem) e q1))"

text \<open>
  \<^verbatim>\<open>scheduleNext\<close> of that file: the override is \<open>None\<close> when the call passes none; an
  override that is falsy or not positive gives way to the interval.
\<close>

definition scheduleNext_part000 :: "jsnum option \<Rightarrow> ('op, 'a) queue \<Rightarrow> ('op, 'a) queue" where
  "scheduleNext_part000 timeoutMillisOverride q =
     (if isEmpty q then q
      else
        (let delay =
               (case timeoutMillisOverride of
                  None \<Rightarrow> jobIntervalMillis q
                | Some d \<Rightarrow>
                    if js_truthy d \<and> js_gt d (JNum 0) then d else jobIntervalMillis q)
         in case setTimeout delay q of
              (h, q1) \<Rightarrow> q1\<lparr>currentTaskTimeoutId := Some h\<rparr>))"

definition timerCallback_part000 ::
    "('op \<Rightarrow> 'a outcome) \<Rightarrow> int \<Rightarrow> ('op, 'a) queue \<Rightarrow> ('op, 'a) queue" where
  "timerCallback_part000 run now q =
     (processNextTask_part000 run now q)\<lparr>lastTaskTimestamp := Some now\<rparr>"

definition fire_part000 ::
    "('op \<Rightarrow> 'a outcome) \<Rightarrow> int \<Rightarrow> nat \<Rightarrow> ('op, 'a) queue \<Rightarrow> ('op, 'a) queue" where
  "fire_part000 run now h q =
     (if h \<in> set (map fst (timers q)) then timerCallback_part000 run now (clearInterval h q)
      else q)"

text \<open>In \<^verbatim>\<open>Date.now() - this.lastTaskTimestamp\<close>, a timestamp of \<^verbatim>\<open>null\<close> counts as 0.\<close>

definition updateTaskSchedule_part000 ::
    "('op \<Rightarrow> 'a outcome) \<Rightarrow> int \<Rightarrow> ('op, 'a) queue \<Rightarrow> ('op, 'a) queue" where
  "updateTaskSchedule_part000 run now q =
     (if isEmpty q \<or> isStopped q then q
      else
        (let sinceLastInterval =
               JNum (of_int (now - (case lastTaskTimestamp q of None \<Rightarrow> 0 | Some ts \<Rightarrow> ts)))
         in if lastTaskTimestamp q = None \<or> js_gt sinceLastInterval (jobIntervalMillis q)
            then scheduleNext_part000 None (processNextTask_part000 run now q)
            else scheduleNext_part000
                   (Some (js_sub (jobIntervalMillis q) sinceLastInterval)) q))"

definition start_part000 ::
    "('op \<Rightarrow> 'a outcome) \<Rightarrow> int \<Rightarrow> ('op, 'a) queue \<Rightarrow> bool \<times> ('op, 'a) queue" where
  "start_part000 run now q =
     (if isActive q then (False, q)
      else (True, updateTaskSchedule_part000 run now (q\<lparr>isActive := True\<rparr>)))"

definition add_part000 ::
    "('op \<Rightarrow> 'a outcome) \<Rightarrow> int \<Rightarrow> 'op \<Rightarrow> bool \<Rightarrow> ('op, 'a) queue \<Rightarrow> nat \<times> ('op, 'a) queue" where
  "add_part000 run now t toTail q =
     (let p = promiseCount q;
          newTaskItem = \<lparr>task = t, promise = p\<rparr>;
          q1 = q\<lparr>promiseCount := Suc p\<rparr>;
          q2 = (if isEmpty q1 \<or> toTail then q1\<lparr>tasks := tasks q1 @ [newTaskItem]\<rparr>
                else q1\<lparr>tasks := newTaskItem # tasks q1\<rparr>)
      in (p, updateTaskSchedule_part000 run now q2))"

definition append_part000 ::
    "('op \<Rightarrow> 'a outcome) \<Rightarrow> int \<Rightarrow> 'op \<Rightarrow> ('op, 'a) queue \<Rightarrow> nat \<times> ('op, 'a) queue" where
  "append_part000 run now t q = add_part000 run now t True q"

definition step_part000 ::
    "('op \<Rightarrow> 'a outcome) \<Rightarrow> ('op, 'a) queue \<Rightarrow> 'op event \<Rightarrow> ('op, 'a) queue" where
  "step_part000 run q ev =
     (case ev of
        Start now \<Rightarrow> snd (start_part000 run now q)
      | Stop \<Rightarrow> stop q
      | Add now t a \<Rightarrow> snd (add_part000 run now t a q)
      | Remove t \<Rightarrow> (case remove t q of None \<Rightarrow> q | Some (n, q1) \<Rightarrow> q1)
      | Fire now h \<Rightarrow> fire_part000 run now h q)"

definition exec_part000 ::
    "('op \<Rightarrow> 'a outcome) \<Rightarrow> ('op, 'a) queue \<Rightarrow> 'op event list \<Rightarrow> ('op, 'a) queue" where
  "exec_part000 run q evs = foldl (step_part000 run) q evs"

text \<open>
  For the order of execution: the operation an event adds to the queue, and the events
  that keep the order of the queue (all but \<^verbatim>\<open>remove\<close> and an \<^verbatim>\<open>add\<close> at the head).
\<close>

fun appendedOp :: "'op event \<Rightarrow> 'op list" where
  "appendedOp (Add now t a) = [t]"
| "appendedOp ev = []"

fun keepsOrder :: "'op event \<Rightarrow> bool" where
  "keepsOrder (Remove t) = False"
| "keepsOrder (Add now t a) = a"
| "keepsOrder ev = True"

section \<open>Consistent states\<close>

text \<open>
  What holds of the queue of the main file between any two events: the outstanding
  timeouts are exactly the one the queue holds a handle of, a stopped queue has none, a
  started queue with tasks has one, the promises of the queued items and the settled
  promises are all different and were all created, and the settlements are, in order,
  what the called operations returned or threw.
\<close>

definition consistent :: "('op \<Rightarrow> 'a outcome) \<Rightarrow> ('op, 'a) queue \<Rightarrow> bool" where
  "consistent run q =
     (map fst (timers q) = (case currentTaskTimeoutId q of None \<Rightarrow> [] | Some h \<Rightarrow> [h]) \<and>
      (isActive q \<or> timers q = []) \<and>
      (tasks q = [] \<or> isStopped q \<or> timers q \<noteq> []) \<and>
      distinct (map promise (tasks q) @ map fst (settled q)) \<and>
      list_all (\<lambda>p. p < promiseCount q) (map promise (tasks q) @ map fst (settled q)) \<and>
      map snd (settled q) = map run (called q))"

text \<open>
  Operations for the examples: number 7 throws 99, number 9 returns a promise that is
  rejected with 5, number 10 returns a promise that stays pending, any other \<open>n\<close>
  returns \<open>10 * n\<close>; number 8 calls \<^verbatim>\<open>stop\<close> on its queue, the others call nothing.
\<close>

definition exampleRun :: "nat \<Rightarrow> int outcome" where
  "exampleRun n =
     (if n = 7 then Throw 99
      else if n = 9 then Return (Thenable (Rejected 5))
      else if n = 10 then Return (Thenable Pending)
      else Return (Plain (10 * int n)))"

definition exampleBody :: "nat \<Rightarrow> nat call list" where
  "exampleBody n = (if n = 8 then [CallStop] else [])"

section \<open>Scheduling leaves the rest of the queue alone\<close>

lemmas sched_defs = updateTaskSchedule_def scheduleNext_def setTimeout_def isEmpty_def
  isStopped_def isStarted_def

lemma updateTaskSchedule_frame:
  "tasks (updateTaskSchedule now q) = tasks q"
  "called (updateTaskSchedule now q) = called q"
  "settled (updateTaskSchedule now q) = settled q"
  "isActive (updateTaskSchedule now q) = isActive q"
  "promiseCount (updateTaskSchedule now q) = promiseCount q"
  "lastTaskTimestamp (updateTaskSchedule now q) = lastTaskTimestamp q"
  "jobIntervalMillis (updateTaskSchedule now q) = jobIntervalMillis q"
  "maxCallsPerSecond (updateTaskSchedule now q) = maxCallsPerSecond q"
  by (simp_all add: sched_defs Let_def split: option.splits)

lemma updateTaskSchedule_idle:
  "tasks q = [] \<or> \<not> isActive q \<or> currentTaskTimeoutId q \<noteq> None \<Longrightarrow> updateTaskSchedule now q = q"
  by (auto simp add: sched_defs)

lemma updateTaskSchedule_arms:
  "tasks q \<noteq> [] \<Longrightarrow> isActive q \<Longrightarrow> currentTaskTimeoutId q = None \<Longrightarrow>
   \<exists>d. updateTaskSchedule now q =
        q\<lparr>timers := timers q @ [(nextTimerId q, d)], nextTimerId := Suc (nextTimerId q),
          currentTaskTimeoutId := Some (nextTimerId q)\<rparr>"
  by (auto simp add: sched_defs Let_def split: option.splits)

lemma consistent_updateTaskSchedule:
  assumes "map fst (timers q) = (case currentTaskTimeoutId q of None \<Rightarrow> [] | Some h \<Rightarrow> [h])"
    and "isActive q \<or> timers q = []"
    and "distinct (map promise (tasks q) @ map fst (settled q))"
    and "list_all (\<lambda>p. p < promiseCount q) (map promise (tasks q) @ map fst (settled q))"
    and "map snd (settled q) = map run (called q)"
  shows "consistent run (updateTaskSchedule now q)"
proof (cases "tasks q = [] \<or> \<not> isActive q \<or> currentTaskTimeoutId q \<noteq> None")
  case True
  with assms have "consistent run q"
    by (auto simp add: consistent_def isStopped_def isStarted_def split: option.splits)
  with updateTaskSchedule_idle [OF True] show ?thesis by simp
next
  case False
  from False obtain d where
    "updateTaskSchedule now q =
        q\<lparr>timers := timers q @ [(nextTimerId q, d)], nextTimerId := Suc (nextTimerId q),
          currentTaskTimeoutId := Some (nextTimerId q)\<rparr>"
    using updateTaskSchedule_arms [of q now] by auto
  with assms False show ?thesis
    by (simp add: consistent_def isStopped_def isStarted_def)
qed

lemma consistent_PromiseQueue: "consistent run (PromiseQueue r)"
  by (simp add: consistent_def PromiseQueue_def)

lemma consistent_start:
  assumes "consistent run q"
  shows "consistent run (snd (start now q))"
proof (cases "isActive q")
  case True
  with assms show ?thesis by (simp add: start_def)
next
  case False
  have "consistent run (updateTaskSchedule now (q\<lparr>isActive := True\<rparr>))"
    using assms by (intro consistent_updateTaskSchedule) (simp_all add: consistent_def)
  with False show ?thesis by (simp add: start_def)
qed

lemma add_unfold:
  "add now t a q =
     (promiseCount q,
      updateTaskSchedule now
        (q\<lparr>promiseCount := Suc (promiseCount q),
           tasks := (if tasks q = [] \<or> a then tasks q @ [\<lparr>task = t, promise = promiseCount q\<rparr>]
                     else \<lparr>task = t, promise = promiseCount q\<rparr> # tasks q)\<rparr>))"
  by (simp add: add_def Let_def isEmpty_def)

lemma consistent_add:
  assumes "consistent run q"
  shows "consistent run (snd (add now t a q))"
proof -
  have "consistent run (updateTaskSchedule now
          (q\<lparr>promiseCount := Suc (promiseCount q),
             tasks := (if tasks q = [] \<or> a then tasks q @ [\<lparr>task = t, promise = promiseCount q\<rparr>]
                       else \<lparr>task = t, promise = promiseCount q\<rparr> # tasks q)\<rparr>))"
    using assms
    by (intro consistent_updateTaskSchedule)
       (auto simp add: consistent_def list_all_iff less_Suc_eq)
  then show ?thesis
    by (simp only: add_unfold snd_conv)
qed

lemma consistent_stop:
  assumes "consistent run q"
  shows "consistent run (stop q)"
  using assms
  by (auto simp add: consistent_def stop_def clearInterval_def isStopped_def isStarted_def Let_def
      split: option.splits)


lemma remove_loop_filter:
  "n \<le> length xs \<Longrightarrow>
   remove_loop t n xs r =
     Some (filter (\<lambda>x. task x \<noteq> t) (take n xs) @ drop n xs,
           r + length (filter (\<lambda>x. task x = t) (take n xs)))"
proof (induction n arbitrary: xs r)
  case 0
  then show ?case by simp
next
  case (Suc n)
  then have lt: "n < length xs" by simp
  show ?case
  proof (cases "task (xs ! n) = t")
    case True
    have "n \<le> length (splice1 n xs)" using lt by (simp add: splice1_def)
    from Suc.IH [OF this] True lt show ?thesis
      by (simp add: splice1_def take_Suc_conv_app_nth)
  next
    case False
    from Suc.IH [of xs r] False lt show ?thesis
      by (simp add: take_Suc_conv_app_nth Cons_nth_drop_Suc)
  qed
qed

lemma remove_filter:
  "remove t q =
     Some (length (filter (\<lambda>x. task x = t) (tasks q)),
           q\<lparr>tasks := filter (\<lambda>x. task x \<noteq> t) (tasks q)\<rparr>)"
  by (simp add: remove_def isEmpty_def remove_loop_filter)

lemma consistent_remove:
  assumes "consistent run q"
  shows "consistent run (case remove t q of None \<Rightarrow> q | Some (n, q1) \<Rightarrow> q1)"
  using assms
  by (auto simp add: remove_filter consistent_def isStopped_def isStarted_def list_all_iff
      distinct_map_filter)

lemma processNextTask_Nil: "tasks q = [] \<Longrightarrow> processNextTask run q = q"
  by (simp add: processNextTask_def)

lemma processNextTask_Cons:
  "tasks q = item # rest \<Longrightarrow>
   processNextTask run q =
     q\<lparr>tasks := rest, called := called q @ [task item],
       settled := settled q @ [(promise item, run (task item))]\<rparr>"
  by (cases "run (task item)") (simp_all add: processNextTask_def resolve_def reject_def)

lemma fire_Nil:
  "h \<in> set (map fst (timers q)) \<Longrightarrow> tasks q = [] \<Longrightarrow>
   fire run now h q =
     q\<lparr>timers := filter (\<lambda>t. fst t \<noteq> h) (timers q), lastTaskTimestamp := Some now,
       currentTaskTimeoutId := None\<rparr>"
  by (simp add: fire_def timerCallback_def clearInterval_def processNextTask_Nil
      scheduleNext_def isEmpty_def)

lemma fire_Cons:
  "h \<in> set (map fst (timers q)) \<Longrightarrow> tasks q = item # rest \<Longrightarrow>
   fire run now h q =
     (if rest = [] then
        q\<lparr>timers := filter (\<lambda>t. fst t \<noteq> h) (timers q), lastTaskTimestamp := Some now,
          tasks := rest, called := called q @ [task item],
          settled := settled q @ [(promise item, run (task item))],
          currentTaskTimeoutId := None\<rparr>
      else
        q\<lparr>timers := filter (\<lambda>t. fst t \<noteq> h) (timers q) @ [(nextTimerId q, jobIntervalMillis q)],
          lastTaskTimestamp := Some now,
          tasks := rest, called := called q @ [task item],
          settled := settled q @ [(promise item, run (task item))],
          nextTimerId := Suc (nextTimerId q),
          currentTaskTimeoutId := Some (nextTimerId q)\<rparr>)"
  by (simp add: fire_def timerCallback_def clearInterval_def processNextTask_Cons
      scheduleNext_def setTimeout_def isEmpty_def Let_def)

lemma fire_not_outstanding: "h \<notin> set (map fst (timers q)) \<Longrightarrow> fire run now h q = q"
  by (simp add: fire_def)

lemma consistent_fire:
  assumes "consistent run q"
  shows "consistent run (fire run now h q)"
proof (cases "h \<in> set (map fst (timers q))")
  case False
  with assms show ?thesis by (simp add: fire_not_outstanding)
next
  case True
  with assms have cur: "currentTaskTimeoutId q = Some h" and act: "isActive q"
    by (auto simp add: consistent_def split: option.splits)
  from assms cur have flt: "filter (\<lambda>t. fst t \<noteq> h) (timers q) = []"
    by (auto simp add: consistent_def filter_empty_conv)
  show ?thesis
  proof (cases "tasks q")
    case Nil
    with assms True flt show ?thesis
      by (simp add: fire_Nil consistent_def)
  next
    case (Cons item rest)
    with assms True flt act show ?thesis
      by (auto simp add: fire_Cons consistent_def isStopped_def isStarted_def)
  qed
qed

lemma consistent_step: "consistent run q \<Longrightarrow> consistent run (step run q ev)"
  by (cases ev)
     (simp_all add: step_def consistent_start consistent_stop consistent_add
        consistent_remove consistent_fire)

lemma consistent_foldl: "consistent run q \<Longrightarrow> consistent run (foldl (step run) q evs)"
  by (induction evs arbitrary: q) (simp_all add: consistent_step)

lemma consistent_exec: "consistent run q \<Longrightarrow> consistent run (exec run q evs)"
  by (simp add: exec_def consistent_foldl)

lemma consistent_reachable: "consistent run (exec run (PromiseQueue r) evs)"
  by (simp add: consistent_exec consistent_PromiseQueue)

lemma one_timer_outstanding: "length (timers (exec run (PromiseQueue r) evs)) \<le> 1"
proof -
  have "consistent run (exec run (PromiseQueue r) evs)" by (rule consistent_reachable)
  then have "length (map fst (timers (exec run (PromiseQueue r) evs))) \<le> 1"
    by (simp add: consistent_def split: option.splits)
  then show ?thesis by simp
qed

lemmas queue_defs = exec_def step_def start_def stop_def add_def remove_def fire_def
  timerCallback_def processNextTask_def scheduleNext_def setTimeout_def clearInterval_def
  updateTaskSchedule_def isEmpty_def isStopped_def isStarted_def resolve_def reject_def
  PromiseQueue_def exampleRun_def js_max_def splice1_def Let_def

section \<open>A stopped queue, and the timeouts of a started one\<close>

lemma add_stopped:
  "\<not> isActive q \<Longrightarrow>
   snd (add now t a q) =
     q\<lparr>promiseCount := Suc (promiseCount q),
       tasks := (if tasks q = [] \<or> a then tasks q @ [\<lparr>task = t, promise = promiseCount q\<rparr>]
                 else \<lparr>task = t, promise = promiseCount q\<rparr> # tasks q)\<rparr>"
  by (simp add: add_unfold updateTaskSchedule_idle)

lemma appendAll_Cons: "appendAll (x # xs) q = appendAll xs (snd (add (fst x) (snd x) True q))"
  by (simp add: appendAll_def append_q_def)

lemma appendAll_stopped:
  "\<not> isActive q \<Longrightarrow>
   \<not> isActive (appendAll xs q) \<and>
   map task (tasks (appendAll xs q)) = map task (tasks q) @ map snd xs \<and>
   timers (appendAll xs q) = timers q \<and>
   currentTaskTimeoutId (appendAll xs q) = currentTaskTimeoutId q \<and>
   called (appendAll xs q) = called q \<and>
   settled (appendAll xs q) = settled q"
proof (induction xs arbitrary: q)
  case Nil
  then show ?case by (simp add: appendAll_def)
next
  case (Cons x xs)
  let ?q1 = "snd (add (fst x) (snd x) True q)"
  from Cons.prems have q1: "?q1 = q\<lparr>promiseCount := Suc (promiseCount q),
       tasks := tasks q @ [\<lparr>task = snd x, promise = promiseCount q\<rparr>]\<rparr>"
    by (simp add: add_stopped)
  then have "\<not> isActive ?q1" using Cons.prems by simp
  from Cons.IH [OF this] show ?case
    by (simp add: appendAll_Cons q1)
qed

lemma fireOutstanding_step:
  assumes "length (timers q) = (if tasks q = [] then 0 else 1)"
  shows "length (timers (fireOutstanding run q now)) =
           (if tasks (fireOutstanding run q now) = [] then 0 else 1) \<and>
         called (fireOutstanding run q now) = called q @ take 1 (map task (tasks q)) \<and>
         tasks (fireOutstanding run q now) = drop 1 (tasks q)"
proof (cases "tasks q")
  case Nil
  with assms show ?thesis by (simp add: fireOutstanding_def)
next
  case (Cons item rest)
  with assms obtain t where t: "timers q = [t]"
    by (cases "timers q") auto
  then have "fireOutstanding run q now = fire run now (fst t) q"
    by (simp add: fireOutstanding_def)
  with t Cons show ?thesis
    by (simp add: fire_Cons)
qed

lemma runTimers_fifo:
  assumes "length (timers q) = (if tasks q = [] then 0 else 1)"
  shows "called (runTimers run nows q) = called q @ take (length nows) (map task (tasks q)) \<and>
         tasks (runTimers run nows q) = drop (length nows) (tasks q) \<and>
         length (timers (runTimers run nows q)) = (if tasks (runTimers run nows q) = [] then 0 else 1)"
  using assms
proof (induction nows arbitrary: q)
  case Nil
  then show ?case by (simp add: runTimers_def)
next
  case (Cons now nows)
  let ?q1 = "fireOutstanding run q now"
  note s = fireOutstanding_step [OF Cons.prems, of run now]
  from s have p: "length (timers ?q1) = (if tasks ?q1 = [] then 0 else 1)" by simp
  have r: "runTimers run (now # nows) q = runTimers run nows ?q1"
    by (simp add: runTimers_def)
  have t: "take 1 (map task (tasks q)) @ take (length nows) (map task (drop 1 (tasks q))) =
           take (Suc (length nows)) (map task (tasks q))"
    by (cases "tasks q") simp_all
  from Cons.IH [OF p] s t show ?case
    by (simp add: r)
qed

lemma PromiseQueue_fields:
  "tasks (PromiseQueue r) = []"
  "isActive (PromiseQueue r) = False"
  "timers (PromiseQueue r) = []"
  "currentTaskTimeoutId (PromiseQueue r) = None"
  "lastTaskTimestamp (PromiseQueue r) = None"
  "called (PromiseQueue r) = []"
  "settled (PromiseQueue r) = []"
  by (simp_all add: PromiseQueue_def)

lemma start_after_appends:
  fixes xs :: "(int \<times> 'op) list" and r :: "jsnum option" and now0 :: int
  defines "q \<equiv> snd (start now0 (appendAll xs (PromiseQueue r :: ('op, 'a) queue)))"
  shows "length (timers q) = (if tasks q = [] then 0 else 1)"
    and "called q = []"
    and "map task (tasks q) = map snd xs"
proof -
  let ?q = "appendAll xs (PromiseQueue r :: ('op, 'a) queue)"
  let ?q1 = "?q\<lparr>isActive := True\<rparr>"
  have "\<not> isActive (PromiseQueue r :: ('op, 'a) queue)" by (simp add: PromiseQueue_fields)
  note a0 = appendAll_stopped [OF this, of xs]
  have a: "\<not> isActive ?q" "map task (tasks ?q) = map snd xs" "timers ?q = []"
    "currentTaskTimeoutId ?q = None" "called ?q = []"
    using a0 by (simp_all add: PromiseQueue_fields)
  have q: "q = updateTaskSchedule now0 ?q1"
    using a by (simp add: q_def start_def)
  show "called q = []" "map task (tasks q) = map snd xs"
    using a by (simp_all add: q updateTaskSchedule_frame)
  show "length (timers q) = (if tasks q = [] then 0 else 1)"
  proof (cases "tasks ?q = []")
    case True
    then have "updateTaskSchedule now0 ?q1 = ?q1"
      by (simp add: updateTaskSchedule_idle)
    with a True show ?thesis by (simp add: q)
  next
    case False
    then obtain d where "updateTaskSchedule now0 ?q1 =
        ?q1\<lparr>timers := timers ?q1 @ [(nextTimerId ?q1, d)],
          nextTimerId := Suc (nextTimerId ?q1),
          currentTaskTimeoutId := Some (nextTimerId ?q1)\<rparr>"
      using updateTaskSchedule_arms [of ?q1 now0] a by auto
    with a False show ?thesis by (simp add: q)
  qed
qed

section \<open>Events that keep the order\<close>

lemma stop_frame: "tasks (stop q) = tasks q" "called (stop q) = called q"
  by (simp_all add: stop_def clearInterval_def Let_def split: option.splits)

lemma start_frame: "tasks (snd (start now q)) = tasks q" "called (snd (start now q)) = called q"
  by (simp_all add: start_def updateTaskSchedule_frame)

lemma fire_order:
  "called (fire run now h q) @ map task (tasks (fire run now h q)) = called q @ map task (tasks q)"
proof (cases "h \<in> set (map fst (timers q))")
  case False
  then show ?thesis by (simp add: fire_not_outstanding)
next
  case True
  show ?thesis
  proof (cases "tasks q")
    case Nil
    with True show ?thesis by (simp add: fire_Nil)
  next
    case (Cons item rest)
    with True show ?thesis by (simp add: fire_Cons)
  qed
qed

lemma step_order:
  assumes "keepsOrder ev"
  shows "called (step run q ev) @ map task (tasks (step run q ev)) =
           called q @ map task (tasks q) @ appendedOp ev"
proof (cases ev)
  case (Start now)
  then show ?thesis by (simp add: step_def start_frame)
next
  case Stop
  then show ?thesis by (simp add: step_def stop_frame)
next
  case (Add now t a)
  with assms show ?thesis
    by (simp add: step_def add_unfold updateTaskSchedule_frame)
next
  case (Remove t)
  with assms show ?thesis by simp
next
  case (Fire now h)
  then show ?thesis by (simp add: step_def fire_order)
qed

lemma foldl_step_order:
  "list_all keepsOrder evs \<Longrightarrow>
   called (foldl (step run) q evs) @ map task (tasks (foldl (step run) q evs)) =
     called q @ map task (tasks q) @ concat (map appendedOp evs)"
proof (induction evs arbitrary: q)
  case Nil
  then show ?case by simp
next
  case (Cons ev evs)
  then have k: "keepsOrder ev" and ks: "list_all keepsOrder evs" by simp_all
  from Cons.IH [OF ks, of "step run q ev"] step_order [OF k, of run q]
  show ?case by simp
qed

lemma exec_order:
  "list_all keepsOrder evs \<Longrightarrow>
   called (exec run (PromiseQueue r) evs) @ map task (tasks (exec run (PromiseQueue r) evs)) =
     concat (map appendedOp evs)"
  by (simp add: exec_def foldl_step_order PromiseQueue_fields)

section \<open>Events on a stopped queue\<close>

lemma stop_stopped: "\<not> isActive q \<Longrightarrow> stop q = q"
  by (simp add: stop_def)

lemma stopped_step:
  assumes "consistent run q" and "\<not> isActive q" and "\<forall>now. ev \<noteq> Start now"
  shows "\<not> isActive (step run q ev) \<and> called (step run q ev) = called q \<and>
         settled (step run q ev) = settled q"
proof (cases ev)
  case (Start now)
  with assms(3) show ?thesis by simp
next
  case Stop
  with assms(2) show ?thesis by (simp add: step_def stop_stopped)
next
  case (Add now t a)
  with assms(2) show ?thesis by (simp add: step_def add_stopped)
next
  case (Remove t)
  with assms(2) show ?thesis by (simp add: step_def remove_filter)
next
  case (Fire now h)
  from assms(1,2) have "timers q = []" by (simp add: consistent_def)
  with Fire assms(2) show ?thesis by (simp add: step_def fire_not_outstanding)
qed

lemma stopped_exec:
  assumes "consistent run q" and "\<not> isActive q" and "\<forall>now. Start now \<notin> set evs"
  shows "\<not> isActive (exec run q evs) \<and> called (exec run q evs) = called q \<and>
         settled (exec run q evs) = settled q"
  using assms
proof (induction evs arbitrary: q)
  case Nil
  then show ?case by (simp add: exec_def)
next
  case (Cons ev evs)
  from Cons.prems(3) have ev: "\<forall>now. ev \<noteq> Start now" by auto
  note s = stopped_step [OF Cons.prems(1,2) ev]
  have c: "consistent run (step run q ev)" using Cons.prems(1) by (rule consistent_step)
  from Cons.prems(3) have "\<forall>now. Start now \<notin> set evs" by auto
  from Cons.IH [OF c _ this] s show ?case
    by (simp add: exec_def)
qed

lemma length_tasks_appendAll_stopped:
  "\<not> isActive q \<Longrightarrow> length (tasks (appendAll xs q)) = length (tasks q) + length xs"
proof -
  assume "\<not> isActive q"
  from appendAll_stopped [OF this, of xs]
  have "map task (tasks (appendAll xs q)) = map task (tasks q) @ map snd xs" by simp
  then have "length (map task (tasks (appendAll xs q))) = length (map task (tasks q) @ map snd xs)"
    by simp
  then show ?thesis by simp
qed

section \<open>The state of a promise\<close>

lemma promiseState_pending: "p \<notin> set (map fst (settled q)) \<Longrightarrow> promiseState q p = Pending"
proof -
  assume "p \<notin> set (map fst (settled q))"
  then have "find (\<lambda>s. fst s = p) (settled q) = None"
    by (force simp add: find_None_iff)
  then show ?thesis by (simp add: promiseState_def)
qed

lemma find_snoc:
  "find P (xs @ [x]) = (case find P xs of Some y \<Rightarrow> Some y | None \<Rightarrow> if P x then Some x else None)"
  by (induction xs) simp_all

lemma promiseState_snoc_other:
  "p \<noteq> p' \<Longrightarrow> promiseState (q\<lparr>settled := settled q @ [(p', out)]\<rparr>) p = promiseState q p"
  by (simp add: promiseState_def find_snoc split: option.splits)

lemma promiseState_snoc_same:
  "p \<notin> set (map fst (settled q)) \<Longrightarrow>
   promiseState (q\<lparr>settled := settled q @ [(p, out)]\<rparr>) p =
     (case out of
        Return (Plain v) \<Rightarrow> Fulfilled v
      | Return (Thenable st) \<Rightarrow> st
      | Throw e \<Rightarrow> Rejected e)"
proof -
  assume "p \<notin> set (map fst (settled q))"
  then have "find (\<lambda>s. fst s = p) (settled q) = None"
    by (force simp add: find_None_iff)
  then show ?thesis by (simp add: promiseState_def find_snoc)
qed

section \<open>Promises, whatever the operations call\<close>

lemma scheduleNext_frame:
  "tasks (scheduleNext d q) = tasks q"
  "called (scheduleNext d q) = called q"
  "settled (scheduleNext d q) = settled q"
  "promiseCount (scheduleNext d q) = promiseCount q"
  "isActive (scheduleNext d q) = isActive q"
  by (simp_all add: scheduleNext_def setTimeout_def)

lemma start_frame_promises:
  "settled (snd (start now q)) = settled q"
  "promiseCount (snd (start now q)) = promiseCount q"
  by (simp_all add: start_def updateTaskSchedule_frame)

lemma stop_frame_promises:
  "settled (stop q) = settled q"
  "promiseCount (stop q) = promiseCount q"
  by (simp_all add: stop_def clearInterval_def Let_def split: option.splits)

lemma add_frame_promises:
  "settled (snd (add now t a q)) = settled q"
  "called (snd (add now t a q)) = called q"
  "promiseCount (snd (add now t a q)) = Suc (promiseCount q)"
  by (simp_all add: add_unfold updateTaskSchedule_frame)

lemma doCall_frame:
  "settled (doCall now q c) = settled q"
  "called (doCall now q c) = called q"
  by (cases c; simp add: doCall_def start_frame start_frame_promises stop_frame
      stop_frame_promises add_frame_promises remove_filter)+

lemma foldl_doCall_frame:
  "settled (foldl (doCall now) q cs) = settled q"
  "called (foldl (doCall now) q cs) = called q"
  by (induction cs arbitrary: q) (simp_all add: doCall_frame)

lemma tasks_add:
  "tasks (snd (add now t a q)) =
     (if tasks q = [] \<or> a then tasks q @ [\<lparr>task = t, promise = promiseCount q\<rparr>]
      else \<lparr>task = t, promise = promiseCount q\<rparr> # tasks q)"
  by (simp add: add_unfold updateTaskSchedule_frame)

lemma promisesKept_add:
  assumes "promisesKept running q"
  shows "promisesKept running (snd (add now t a q))"
proof -
  from assms have lt: "\<forall>p \<in> set running \<union> promise ` set (tasks q) \<union> fst ` set (settled q). p < promiseCount q"
    by (auto simp add: promisesKept_def list_all_iff)
  then have fresh: "promiseCount q \<notin> set running \<union> promise ` set (tasks q) \<union> fst ` set (settled q)"
    by blast
  from assms fresh lt show ?thesis
    by (auto simp add: promisesKept_def list_all_iff add_frame_promises tasks_add less_Suc_eq)
qed


lemma promisesKept_doCall:
  assumes "promisesKept running q"
  shows "promisesKept running (doCall now q c)"
proof (cases c)
  case CallStart
  with assms show ?thesis
    by (simp add: doCall_def promisesKept_def start_frame start_frame_promises)
next
  case CallStop
  with assms show ?thesis
    by (simp add: doCall_def promisesKept_def stop_frame stop_frame_promises)
next
  case (CallAdd t a)
  with assms show ?thesis
    by (simp add: doCall_def promisesKept_add)
next
  case (CallRemove t)
  with assms show ?thesis
    by (auto simp add: doCall_def promisesKept_def remove_filter list_all_iff distinct_map_filter)
qed

lemma promisesKept_foldl_doCall:
  "promisesKept running q \<Longrightarrow> promisesKept running (foldl (doCall now) q cs)"
  by (induction cs arbitrary: q) (simp_all add: promisesKept_doCall)

lemma processNextTask_re_Nil: "tasks q = [] \<Longrightarrow> processNextTask_re run body now q = q"
  by (simp add: processNextTask_re_def)

lemma processNextTask_re_Cons:
  "tasks q = item # rest \<Longrightarrow>
   processNextTask_re run body now q =
     (foldl (doCall now) (q\<lparr>tasks := rest, called := called q @ [task item]\<rparr>) (body (task item)))
       \<lparr>settled := settled q @ [(promise item, run (task item))]\<rparr>"
  by (cases "run (task item)")
     (simp_all add: processNextTask_re_def resolve_def reject_def Let_def foldl_doCall_frame)

lemma processNextTask_re_no_calls:
  "processNextTask_re run (\<lambda>t. []) now q = processNextTask run q"
  by (simp add: processNextTask_re_def processNextTask_def Let_def split: list.splits)

lemma fire_re_no_calls: "fire_re run (\<lambda>t. []) now h q = fire run now h q"
  by (simp add: fire_re_def fire_def timerCallback_re_def timerCallback_def
      processNextTask_re_no_calls)

lemma step_re_no_calls: "step_re run (\<lambda>t. []) q ev = step run q ev"
  by (cases ev) (simp_all add: step_re_def step_def fire_re_no_calls)

lemma exec_re_no_calls: "exec_re run (\<lambda>t. []) q evs = exec run q evs"
proof -
  have "step_re run (\<lambda>t. []) = step run"
    by (intro ext) (rule step_re_no_calls)
  then show ?thesis by (simp add: exec_re_def exec_def)
qed

lemma promisesKept_processNextTask_re:
  assumes "promisesKept [] q" and "map snd (settled q) = map run (called q)"
  shows "promisesKept [] (processNextTask_re run body now q) \<and>
         map snd (settled (processNextTask_re run body now q)) =
           map run (called (processNextTask_re run body now q))"
proof (cases "tasks q")
  case Nil
  with assms show ?thesis by (simp add: processNextTask_re_Nil)
next
  case (Cons item rest)
  let ?q1 = "q\<lparr>tasks := rest, called := called q @ [task item]\<rparr>"
  let ?q2 = "foldl (doCall now) ?q1 (body (task item))"
  from assms(1) Cons have "promisesKept [promise item] ?q1"
    by (simp add: promisesKept_def)
  then have k: "promisesKept [promise item] ?q2"
    by (rule promisesKept_foldl_doCall)
  have f: "settled ?q2 = settled q" "called ?q2 = called q @ [task item]"
    by (simp_all add: foldl_doCall_frame)
  from k f have "promisesKept [] (?q2\<lparr>settled := settled q @ [(promise item, run (task item))]\<rparr>)"
    by (auto simp add: promisesKept_def)
  with assms(2) f show ?thesis
    by (simp add: processNextTask_re_Cons [OF Cons])
qed

lemma promisesKept_fire_re:
  assumes "promisesKept [] q" and "map snd (settled q) = map run (called q)"
  shows "promisesKept [] (fire_re run body now h q) \<and>
         map snd (settled (fire_re run body now h q)) = map run (called (fire_re run body now h q))"
proof (cases "h \<in> set (map fst (timers q))")
  case False
  with assms show ?thesis by (simp add: fire_re_def)
next
  case True
  let ?q0 = "(clearInterval h q)\<lparr>lastTaskTimestamp := Some now\<rparr>"
  from assms have "promisesKept [] ?q0" "map snd (settled ?q0) = map run (called ?q0)"
    by (simp_all add: promisesKept_def clearInterval_def)
  from promisesKept_processNextTask_re [OF this, of body now] True show ?thesis
    by (simp add: fire_re_def timerCallback_re_def Let_def promisesKept_def scheduleNext_frame)
qed

lemma promisesKept_step_re:
  assumes "promisesKept [] q" and "map snd (settled q) = map run (called q)"
  shows "promisesKept [] (step_re run body q ev) \<and>
         map snd (settled (step_re run body q ev)) = map run (called (step_re run body q ev))"
proof (cases ev)
  case (Start now)
  from promisesKept_doCall [OF assms(1), of now CallStart] assms(2) Start show ?thesis
    by (simp add: step_re_def doCall_def start_frame start_frame_promises)
next
  case Stop
  from promisesKept_doCall [OF assms(1), of 0 CallStop] assms(2) Stop show ?thesis
    by (simp add: step_re_def doCall_def stop_frame stop_frame_promises)
next
  case (Add now t a)
  from promisesKept_doCall [OF assms(1), of now "CallAdd t a"] assms(2) Add show ?thesis
    by (simp add: step_re_def doCall_def add_frame_promises)
next
  case (Remove t)
  from promisesKept_doCall [OF assms(1), of 0 "CallRemove t"] assms(2) Remove show ?thesis
    by (simp add: step_re_def doCall_def remove_filter)
next
  case (Fire now h)
  with promisesKept_fire_re [OF assms, of body now h] show ?thesis
    by (simp add: step_re_def)
qed

lemma promisesKept_foldl_step_re:
  "promisesKept [] q \<Longrightarrow> map snd (settled q) = map run (called q) \<Longrightarrow>
   promisesKept [] (foldl (step_re run body) q evs) \<and>
   map snd (settled (foldl (step_re run body) q evs)) =
     map run (called (foldl (step_re run body) q evs))"
proof (induction evs arbitrary: q)
  case Nil
  then show ?case by simp
next
  case (Cons ev evs)
  from promisesKept_step_re [OF Cons.prems, of body ev]
  have "promisesKept [] (step_re run body q ev)"
    and "map snd (settled (step_re run body q ev)) = map run (called (step_re run body q ev))"
    by simp_all
  from Cons.IH [OF this] show ?case by simp
qed

lemma promisesKept_reachable:
  "promisesKept [] (exec_re run body (PromiseQueue r) evs) \<and>
   map snd (settled (exec_re run body (PromiseQueue r) evs)) =
     map run (called (exec_re run body (PromiseQueue r) evs))"
proof -
  have "promisesKept [] (PromiseQueue r :: ('a, 'b) queue)"
    by (simp add: promisesKept_def PromiseQueue_def)
  moreover have "map snd (settled (PromiseQueue r :: ('a, 'b) queue)) = map run (called (PromiseQueue r))"
    by (simp add: PromiseQueue_fields)
  ultimately show ?thesis
    unfolding exec_re_def by (rule promisesKept_foldl_step_re)
qed

lemmas re_defs = exec_re_def step_re_def fire_re_def timerCallback_re_def
  processNextTask_re_def doCall_def exampleBody_def

lemma scheduleNext_arms: "tasks (scheduleNext d q) = [] \<or> timers (scheduleNext d q) \<noteq> []"
  by (simp add: scheduleNext_def setTimeout_def isEmpty_def)

lemma promiseState_settled: "settled q' = settled q \<Longrightarrow> promiseState q' p = promiseState q p"
  by (simp add: promiseState_def)

section \<open>The constructor\<close>

lemma PromiseQueue_given_rate:
  "r \<noteq> 0 \<Longrightarrow>
   PromiseQueue (Some (JNum r)) =
     \<lparr>maxCallsPerSecond = JNum r, tasks = [], isActive = False,
      jobIntervalMillis = JNum (1000 / r), lastTaskTimestamp = None,
      currentTaskTimeoutId = None, timers = [], nextTimerId = 1, promiseCount = 0,
      called = [], settled = []\<rparr>"
  by (simp add: PromiseQueue_def)

text \<open>
  C9: the stored rate is the argument, or 1 when there is none, and the interval is 1000
  divided by the stored rate. The constructor divides 1000 by its argument, not by the
  stored rate: constructed with no argument, the queue has the rate 1 and the interval
  \<^verbatim>\<open>NaN\<close>, not 1000.
\<close>

theorem default_interval_is_NaN:
  "getMaxCallsPerSecond (PromiseQueue None :: ('op, 'a) queue) = JNum 1 \<and>
   jobIntervalMillis (PromiseQueue None :: ('op, 'a) queue) = NaN \<and>
   jobIntervalMillis (PromiseQueue None :: ('op, 'a) queue) \<noteq> JNum 1000"
  by (simp add: PromiseQueue_def getMaxCallsPerSecond_def)

section \<open>Adding and removing\<close>

text \<open>
  C8: \<^verbatim>\<open>append\<close> puts the new item at the tail, \<^verbatim>\<open>prepend\<close> puts it at the head of a
  queue that has items, and on an empty queue \<^verbatim>\<open>prepend\<close> does what \<^verbatim>\<open>append\<close> does;
  \<^verbatim>\<open>add\<close> with a true flag is \<^verbatim>\<open>append\<close>, with a false one \<^verbatim>\<open>prepend\<close>.
\<close>

theorem add_tail_or_head:
  "tasks (snd (append_q now t q)) = tasks q @ [\<lparr>task = t, promise = promiseCount q\<rparr>] \<and>
   (tasks q \<noteq> [] \<longrightarrow>
      tasks (snd (prepend now t q)) = \<lparr>task = t, promise = promiseCount q\<rparr> # tasks q) \<and>
   (tasks q = [] \<longrightarrow> prepend now t q = append_q now t q) \<and>
   add now t True q = append_q now t q \<and>
   add now t False q = prepend now t q"
  by (simp add: append_q_def prepend_def add_unfold updateTaskSchedule_frame)

theorem add_tail_or_head_witness:
  "map task (tasks (snd (append_q 0 (3::nat) (snd (append_q 0 2 (PromiseQueue None :: (nat, int) queue)))))) = [2, 3] \<and>
   map task (tasks (snd (prepend 0 (3::nat) (snd (append_q 0 2 (PromiseQueue None :: (nat, int) queue)))))) = [3, 2] \<and>
   prepend 0 (2::nat) (PromiseQueue None :: (nat, int) queue) = append_q 0 2 (PromiseQueue None)"
  using add_tail_or_head [of 0 3 "snd (append_q 0 2 (PromiseQueue None :: (nat, int) queue))"]
    add_tail_or_head [of 0 2 "PromiseQueue None :: (nat, int) queue"]
  by (simp add: append_q_def prepend_def queue_defs)

text \<open>
  C7: \<^verbatim>\<open>remove\<close> takes out exactly the items whose operation is identical to the
  argument, returns how many they were (0 on an empty queue), keeps the other items in
  their order, and settles no promise.
\<close>

theorem remove_identical:
  "remove t q =
     Some (length (filter (\<lambda>x. task x = t) (tasks q)),
           q\<lparr>tasks := filter (\<lambda>x. task x \<noteq> t) (tasks q)\<rparr>) \<and>
   (tasks q = [] \<longrightarrow> remove t q = Some (0, q)) \<and>
   (\<forall>n q1. remove t q = Some (n, q1) \<longrightarrow>
      settled q1 = settled q \<and> called q1 = called q \<and> (\<forall>p. promiseState q1 p = promiseState q p))"
  by (auto simp add: remove_filter promiseState_def)

theorem remove_identical_witness:
  "remove (1::nat) (appendAll [(0, 1), (0, 7), (0, 1)] (PromiseQueue None :: (nat, int) queue)) =
     Some (2, (PromiseQueue None)\<lparr>tasks := [\<lparr>task = 7, promise = 1\<rparr>], promiseCount := 3\<rparr>) \<and>
   remove (1::nat) (PromiseQueue None :: (nat, int) queue) = Some (0, PromiseQueue None)"
  using remove_identical [of 1 "appendAll [(0, 1), (0, 7), (0, 1)] (PromiseQueue None :: (nat, int) queue)"]
    remove_identical [of 1 "PromiseQueue None :: (nat, int) queue"]
  by (simp add: appendAll_def append_q_def queue_defs)

section \<open>The wait before the next task\<close>

lemma wait_computed:
  assumes "tasks q \<noteq> []" and "isActive q" and "currentTaskTimeoutId q = None"
    and "jobIntervalMillis q = JNum i"
  shows "timers (updateTaskSchedule now q) =
           timers q @
             [(nextTimerId q,
               (case lastTaskTimestamp q of
                  None \<Rightarrow> JNum 0
                | Some ts \<Rightarrow>
                    if ts = 0 then JNum 0
                    else if i < of_int (now - ts) then JNum i
                    else JNum (i - of_int (now - ts))))]"
  using assms
  by (simp add: sched_defs js_max_def Let_def split: option.splits)

text \<open>
  C2: with no timeout outstanding and a started queue that has tasks, the wait is 0 when
  no task has run, 0 when the time since the last task is the interval or more, and the
  rest of the interval otherwise. The code waits a whole interval when more than the
  interval has passed: a queue of rate 1 runs its only task at time 1000 and gets the
  next task at time 3000; the timeout it arms has the delay 1000.
\<close>

theorem wait_after_idle_is_whole_interval:
  "(let q = exec exampleRun (PromiseQueue (Some (JNum 1)))
              [Start 1000, Add 1000 1 True, Fire 1000 1]
    in isActive q \<and> timers q = [] \<and> currentTaskTimeoutId q = None \<and>
       lastTaskTimestamp q = Some 1000 \<and> jobIntervalMillis q = JNum 1000 \<and>
       timers (snd (add 3000 2 True q)) = [(2, JNum 1000)])"
  by (simp add: queue_defs)

section \<open>One timeout at a time\<close>

text \<open>
  C3: at most one timeout is outstanding at any time. The main file keeps to it as long
  as the operations do not call the queue (\<open>one_timer_outstanding\<close> above). The
  earlier variant arms a timeout at every
  \<^verbatim>\<open>add\<close> on a started queue whose last task ran less than an interval ago: after three
  tasks added at the same time, two timeouts are outstanding, and when both fire at time
  1005 the second and the third task run at the same time.
\<close>

theorem part000_two_timers:
  "(let q = exec_part000 exampleRun (PromiseQueue (Some (JNum 1)))
              [Start 5, Add 5 1 True, Add 5 2 True, Add 5 3 True]
    in timers q = [(1, JNum 1000), (2, JNum 1000)] \<and> currentTaskTimeoutId q = Some 2 \<and>
       called (exec_part000 exampleRun q [Fire 1005 1, Fire 1005 2]) = [1, 2, 3])"
  by code_simp

section \<open>The order of execution\<close>

text \<open>
  C1: tasks appended to a new queue run, once the queue is started, in the order in which
  they were appended, one at each firing of the timeout and none twice: after \<open>k\<close>
  firings the operations called are the first \<open>k\<close> appended, the others are still
  queued in their order, and once all have run no timeout is left. Also when appends,
  starts, stops and firings alternate, the operations called so far, followed by those
  still queued, are the operations appended, in their order.
\<close>

theorem fifo_order:
  fixes run :: "'op \<Rightarrow> 'a outcome"
  shows
  "called (runTimers run nows (snd (start now0 (appendAll xs (PromiseQueue r))))) =
     take (length nows) (map snd xs) \<and>
   map task (tasks (runTimers run nows (snd (start now0 (appendAll xs (PromiseQueue r)))))) =
     drop (length nows) (map snd xs) \<and>
   (length xs \<le> length nows \<longrightarrow>
      timers (runTimers run nows (snd (start now0 (appendAll xs (PromiseQueue r))))) = []) \<and>
   (list_all keepsOrder evs \<longrightarrow>
      called (exec run (PromiseQueue r) evs) @ map task (tasks (exec run (PromiseQueue r) evs)) =
        concat (map appendedOp evs))"
proof -
  define q :: "('op, 'a) queue" where "q = snd (start now0 (appendAll xs (PromiseQueue r)))"
  have p: "length (timers q) = (if tasks q = [] then 0 else 1)"
    unfolding q_def by (rule start_after_appends)
  have c: "called q = []"
    unfolding q_def by (rule start_after_appends)
  have m: "map task (tasks q) = map snd xs"
    unfolding q_def by (rule start_after_appends)
  have f: "called (runTimers run nows q) = called q @ take (length nows) (map task (tasks q))"
    "tasks (runTimers run nows q) = drop (length nows) (tasks q)"
    "length (timers (runTimers run nows q)) = (if tasks (runTimers run nows q) = [] then 0 else 1)"
    using runTimers_fifo [OF p, of run nows] by simp_all
  have len: "length (tasks q) = length xs"
    using m by (metis length_map)
  have 1: "called (runTimers run nows q) = take (length nows) (map snd xs)"
    by (simp add: f(1) c m)
  have 2: "map task (tasks (runTimers run nows q)) = drop (length nows) (map snd xs)"
    using m by (simp add: f(2) drop_map [symmetric])
  have 3: "length xs \<le> length nows \<longrightarrow> timers (runTimers run nows q) = []"
    using f(3) by (auto simp add: f(2) len split: if_splits)
  have 4: "list_all keepsOrder evs \<longrightarrow>
      called (exec run (PromiseQueue r) evs) @ map task (tasks (exec run (PromiseQueue r) evs)) =
        concat (map appendedOp evs)"
    by (simp add: exec_order)
  from 1 2 3 4 show ?thesis unfolding q_def by simp
qed

theorem fifo_order_witness:
  "called (runTimers exampleRun [5, 6, 7, 8]
     (snd (start 3 (appendAll [(0, 1), (1, 7), (2, 3)] (PromiseQueue (Some (JNum 5))))))) = [1, 7, 3] \<and>
   timers (runTimers exampleRun [5, 6, 7, 8]
     (snd (start 3 (appendAll [(0, 1), (1, 7), (2, 3)] (PromiseQueue (Some (JNum 5))))))) = [] \<and>
   called (runTimers exampleRun [5, 6]
     (snd (start 3 (appendAll [(0, 1), (1, 7), (2, 3)] (PromiseQueue (Some (JNum 5))))))) = [1, 7] \<and>
   map task (tasks (runTimers exampleRun [5, 6]
     (snd (start 3 (appendAll [(0, 1), (1, 7), (2, 3)] (PromiseQueue (Some (JNum 5)))))))) = [3] \<and>
   called (exec exampleRun (PromiseQueue (Some (JNum 5)))
     [Start 0, Add 0 1 True, Add 0 7 True, Fire 0 1, Add 5 3 True, Fire 200 2]) @
   map task (tasks (exec exampleRun (PromiseQueue (Some (JNum 5)))
     [Start 0, Add 0 1 True, Add 0 7 True, Fire 0 1, Add 5 3 True, Fire 200 2])) = [1, 7, 3]"
  using fifo_order [of exampleRun "[5, 6, 7, 8]" 3 "[(0, 1), (1, 7), (2, 3)]" "Some (JNum 5)" "[]"]
    fifo_order [of exampleRun "[5, 6]" 3 "[(0, 1), (1, 7), (2, 3)]" "Some (JNum 5)"
      "[Start 0, Add 0 1 True, Add 0 7 True, Fire 0 1, Add 5 3 True, Fire 200 2]"]
  by simp

section \<open>A stopped queue\<close>

text \<open>
  As long as the operations do not call the queue: in every state that the queue reaches
  and in which it is stopped, no timeout is outstanding, and whatever happens next short
  of \<^verbatim>\<open>start\<close> (adding, removing, stopping again, a stale timeout) calls no operation
  and settles no promise, while \<^verbatim>\<open>append\<close>, \<^verbatim>\<open>prepend\<close> and \<^verbatim>\<open>remove\<close> change the
  tasks as they always do; \<open>N\<close> appends make the queue \<open>N\<close> items longer, and a new
  queue has exactly \<open>N\<close> items after them.
\<close>

lemma stopped_queue_runs_nothing_atomic:
  fixes run :: "'op \<Rightarrow> 'a outcome"
  assumes "\<not> isActive (exec run (PromiseQueue r) evs)"
    and "\<forall>now. Start now \<notin> set evs'"
  shows "timers (exec run (PromiseQueue r) evs) = [] \<and>
         \<not> isActive (exec run (exec run (PromiseQueue r) evs) evs') \<and>
         called (exec run (exec run (PromiseQueue r) evs) evs') =
           called (exec run (PromiseQueue r) evs) \<and>
         settled (exec run (exec run (PromiseQueue r) evs) evs') =
           settled (exec run (PromiseQueue r) evs) \<and>
         tasks (snd (append_q now t (exec run (PromiseQueue r) evs))) =
           tasks (exec run (PromiseQueue r) evs) @
             [\<lparr>task = t, promise = promiseCount (exec run (PromiseQueue r) evs)\<rparr>] \<and>
         tasks (snd (prepend now t (exec run (PromiseQueue r) evs))) =
           (if tasks (exec run (PromiseQueue r) evs) = []
            then [\<lparr>task = t, promise = promiseCount (exec run (PromiseQueue r) evs)\<rparr>]
            else \<lparr>task = t, promise = promiseCount (exec run (PromiseQueue r) evs)\<rparr> #
                   tasks (exec run (PromiseQueue r) evs)) \<and>
         remove t (exec run (PromiseQueue r) evs) =
           Some (length (filter (\<lambda>x. task x = t) (tasks (exec run (PromiseQueue r) evs))),
                 (exec run (PromiseQueue r) evs)
                   \<lparr>tasks := filter (\<lambda>x. task x \<noteq> t) (tasks (exec run (PromiseQueue r) evs))\<rparr>) \<and>
         getQueueSize (appendAll xs (exec run (PromiseQueue r) evs)) =
           getQueueSize (exec run (PromiseQueue r) evs) + length xs \<and>
         called (appendAll xs (exec run (PromiseQueue r) evs)) =
           called (exec run (PromiseQueue r) evs) \<and>
         settled (appendAll xs (exec run (PromiseQueue r) evs)) =
           settled (exec run (PromiseQueue r) evs) \<and>
         getQueueSize (appendAll xs (PromiseQueue r :: ('op, 'a) queue)) = length xs \<and>
         called (appendAll xs (PromiseQueue r :: ('op, 'a) queue)) = [] \<and>
         settled (appendAll xs (PromiseQueue r :: ('op, 'a) queue)) = []"
proof -
  define q :: "('op, 'a) queue" where "q = exec run (PromiseQueue r) evs"
  have c: "consistent run q" unfolding q_def by (rule consistent_reachable)
  have s: "\<not> isActive q" using assms(1) by (simp add: q_def)
  have 1: "timers q = []" using c s by (simp add: consistent_def)
  note 2 = stopped_exec [OF c s assms(2)]
  have 3: "tasks (snd (append_q now t q)) = tasks q @ [\<lparr>task = t, promise = promiseCount q\<rparr>]"
    using s by (simp add: append_q_def add_stopped)
  have pre: "tasks (snd (prepend now t q)) =
           (if tasks q = [] then [\<lparr>task = t, promise = promiseCount q\<rparr>]
            else \<lparr>task = t, promise = promiseCount q\<rparr> # tasks q)"
    using s by (simp add: prepend_def add_stopped)
  note 4 = remove_filter [of t q]
  note a = appendAll_stopped [OF s, of xs]
  have 5: "getQueueSize (appendAll xs q) = getQueueSize q + length xs"
    using s by (simp add: getQueueSize_def length_tasks_appendAll_stopped)
  have n: "\<not> isActive (PromiseQueue r :: ('op, 'a) queue)" by (simp add: PromiseQueue_fields)
  note b = appendAll_stopped [OF n, of xs]
  have 6: "getQueueSize (appendAll xs (PromiseQueue r :: ('op, 'a) queue)) = length xs"
    using n by (simp add: getQueueSize_def length_tasks_appendAll_stopped PromiseQueue_fields)
  from 1 2 3 pre 4 5 6 a b show ?thesis
    unfolding q_def by (simp add: PromiseQueue_fields)
qed

text \<open>
  C5: while the queue is stopped, no task is executed and no promise is settled. An
  operation that calls \<^verbatim>\<open>stop\<close> on its own queue breaks it: \<^verbatim>\<open>stop\<close> clears the
  handle of the timeout that is firing, and the callback of that timeout then arms the
  next one, looking only at whether the queue is empty. The queue is stopped and keeps a
  timeout; when it fires, the next operation is called and its promise is settled.
\<close>

theorem stopped_queue_runs_task:
  "(let q = exec_re exampleRun exampleBody (PromiseQueue (Some (JNum 1)))
              [Add 0 8 True, Add 0 2 True, Start 0, Fire 0 1]
    in \<not> isActive q \<and> called q = [8] \<and> map task (tasks q) = [2] \<and>
       timers q = [(2, JNum 1000)] \<and>
       \<not> isActive (exec_re exampleRun exampleBody q [Fire 1000 2]) \<and>
       called (exec_re exampleRun exampleBody q [Fire 1000 2]) = [8, 2] \<and>
       settled (exec_re exampleRun exampleBody q [Fire 1000 2]) =
         [(0, Return (Plain 80)), (1, Return (Plain 20))])"
  by (simp add: queue_defs re_defs)

section \<open>Settling the promise of a task\<close>

text \<open>
  C6, as stated: the promise of an executed task is settled at once, fulfilled with
  exactly what the operation returned. It is not when the operation returns a promise:
  \<^verbatim>\<open>resolve\<close> makes the handle follow it, so the handle of an operation that returns a
  rejected promise is rejected, and that of one that returns a pending promise stays
  pending.
\<close>

theorem returned_promise_counterexample:
  "exampleRun 9 = Return (Thenable (Rejected 5)) \<and>
   called (exec exampleRun (PromiseQueue (Some (JNum 1))) [Add 0 9 True, Start 0, Fire 0 1]) = [9] \<and>
   promiseState (exec exampleRun (PromiseQueue (Some (JNum 1))) [Add 0 9 True, Start 0, Fire 0 1]) 0 =
     Rejected 5 \<and>
   exampleRun 10 = Return (Thenable Pending) \<and>
   called (exec exampleRun (PromiseQueue (Some (JNum 1))) [Add 0 10 True, Start 0, Fire 0 1]) = [10] \<and>
   promiseState (exec exampleRun (PromiseQueue (Some (JNum 1))) [Add 0 10 True, Start 0, Fire 0 1]) 0 =
     Pending"
  by (simp add: queue_defs promiseState_def)

text \<open>
  C6, amended: whatever the operations call, in every state that the queue reaches no
  promise has been settled twice, and the settlements are the outcomes of the operations
  called, in order. Executing the head item calls, once, \<^verbatim>\<open>resolve\<close> with exactly what
  the operation returned or \<^verbatim>\<open>reject\<close> with exactly what it threw, on a promise that
  was pending until then: the promise is fulfilled with a plain value returned, follows
  a promise returned, and is rejected with a value thrown; no other promise is touched.
  Whether the operation returned or threw, the firing that executed it leaves a timeout
  armed if items are queued, and these are the other items if the operation called
  nothing.
\<close>

theorem settled_once_with_outcome:
  fixes run :: "'op \<Rightarrow> 'a outcome" and body :: "'op \<Rightarrow> 'op call list"
  assumes "tasks (exec_re run body (PromiseQueue r) evs) = item # rest"
  shows "distinct (map fst (settled (exec_re run body (PromiseQueue r) evs))) \<and>
         map snd (settled (exec_re run body (PromiseQueue r) evs)) =
           map run (called (exec_re run body (PromiseQueue r) evs)) \<and>
         promiseState (exec_re run body (PromiseQueue r) evs) (promise item) = Pending \<and>
         called (processNextTask_re run body now (exec_re run body (PromiseQueue r) evs)) =
           called (exec_re run body (PromiseQueue r) evs) @ [task item] \<and>
         settled (processNextTask_re run body now (exec_re run body (PromiseQueue r) evs)) =
           settled (exec_re run body (PromiseQueue r) evs) @ [(promise item, run (task item))] \<and>
         promiseState (processNextTask_re run body now (exec_re run body (PromiseQueue r) evs))
             (promise item) =
           (case run (task item) of
              Return (Plain v) \<Rightarrow> Fulfilled v
            | Return (Thenable st) \<Rightarrow> st
            | Throw e \<Rightarrow> Rejected e) \<and>
         (\<forall>p. p \<noteq> promise item \<longrightarrow>
            promiseState (processNextTask_re run body now (exec_re run body (PromiseQueue r) evs)) p =
              promiseState (exec_re run body (PromiseQueue r) evs) p) \<and>
         distinct (map fst (settled
            (processNextTask_re run body now (exec_re run body (PromiseQueue r) evs)))) \<and>
         (\<forall>h. h \<in> set (map fst (timers (exec_re run body (PromiseQueue r) evs))) \<longrightarrow>
            called (fire_re run body now h (exec_re run body (PromiseQueue r) evs)) =
              called (exec_re run body (PromiseQueue r) evs) @ [task item] \<and>
            settled (fire_re run body now h (exec_re run body (PromiseQueue r) evs)) =
              settled (exec_re run body (PromiseQueue r) evs) @ [(promise item, run (task item))] \<and>
            (tasks (fire_re run body now h (exec_re run body (PromiseQueue r) evs)) = [] \<or>
             timers (fire_re run body now h (exec_re run body (PromiseQueue r) evs)) \<noteq> []) \<and>
            (body (task item) = [] \<longrightarrow>
               tasks (fire_re run body now h (exec_re run body (PromiseQueue r) evs)) = rest))"
proof -
  define q :: "('op, 'a) queue" where "q = exec_re run body (PromiseQueue r) evs"
  have t: "tasks q = item # rest" using assms by (simp add: q_def)
  have k: "promisesKept [] q" and 2: "map snd (settled q) = map run (called q)"
    unfolding q_def using promisesKept_reachable [of run body r evs] by simp_all
  from k have 1: "distinct (map fst (settled q))"
    by (simp add: promisesKept_def)
  from k t have fresh: "promise item \<notin> set (map fst (settled q))"
    by (auto simp add: promisesKept_def)
  then have 3: "promiseState q (promise item) = Pending" by (rule promiseState_pending)
  note pc = processNextTask_re_Cons [OF t, of run body now]
  have 4: "called (processNextTask_re run body now q) = called q @ [task item]"
    by (simp add: pc foldl_doCall_frame)
  have 5: "settled (processNextTask_re run body now q) =
             settled q @ [(promise item, run (task item))]"
    by (simp add: pc)
  have s: "settled (processNextTask_re run body now q) =
             settled (q\<lparr>settled := settled q @ [(promise item, run (task item))]\<rparr>)"
    by (simp add: 5)
  have 6: "promiseState (processNextTask_re run body now q) (promise item) =
             (case run (task item) of
                Return (Plain v) \<Rightarrow> Fulfilled v
              | Return (Thenable st) \<Rightarrow> st
              | Throw e \<Rightarrow> Rejected e)"
    using promiseState_snoc_same [OF fresh, of "run (task item)"]
    by (simp only: promiseState_settled [OF s])
  have 7: "\<forall>p. p \<noteq> promise item \<longrightarrow>
             promiseState (processNextTask_re run body now q) p = promiseState q p"
    using promiseState_snoc_other [of _ "promise item" q "run (task item)"]
    by (simp only: promiseState_settled [OF s]) simp
  have 8: "distinct (map fst (settled (processNextTask_re run body now q)))"
    using 1 fresh by (simp add: 5)
  have 9: "\<forall>h. h \<in> set (map fst (timers q)) \<longrightarrow>
            called (fire_re run body now h q) = called q @ [task item] \<and>
            settled (fire_re run body now h q) = settled q @ [(promise item, run (task item))] \<and>
            (tasks (fire_re run body now h q) = [] \<or> timers (fire_re run body now h q) \<noteq> []) \<and>
            (body (task item) = [] \<longrightarrow> tasks (fire_re run body now h q) = rest)"
  proof (intro allI impI)
    fix h
    assume h: "h \<in> set (map fst (timers q))"
    let ?q0 = "(clearInterval h q)\<lparr>lastTaskTimestamp := Some now\<rparr>"
    let ?q1 = "processNextTask_re run body now ?q0"
    have t0: "tasks ?q0 = item # rest" using t by (simp add: clearInterval_def)
    note p0 = processNextTask_re_Cons [OF t0, of run body now]
    have f: "fire_re run body now h q = scheduleNext (jobIntervalMillis ?q1) ?q1"
      using h by (simp add: fire_re_def timerCallback_re_def Let_def)
    have a: "called ?q1 = called q @ [task item]"
      by (simp only: p0) (simp add: foldl_doCall_frame clearInterval_def)
    have b: "settled ?q1 = settled q @ [(promise item, run (task item))]"
      by (simp only: p0) (simp add: clearInterval_def)
    have c: "body (task item) = [] \<longrightarrow> tasks ?q1 = rest"
      by (simp only: p0) simp
    from a b c scheduleNext_arms [of "jobIntervalMillis ?q1" ?q1]
    show "called (fire_re run body now h q) = called q @ [task item] \<and>
            settled (fire_re run body now h q) = settled q @ [(promise item, run (task item))] \<and>
            (tasks (fire_re run body now h q) = [] \<or> timers (fire_re run body now h q) \<noteq> []) \<and>
            (body (task item) = [] \<longrightarrow> tasks (fire_re run body now h q) = rest)"
      by (simp add: f scheduleNext_frame)
  qed
  from 1 2 3 4 5 6 7 8 9 show ?thesis unfolding q_def by blast
qed

theorem settled_once_with_outcome_witness:
  "tasks (exec_re exampleRun exampleBody (PromiseQueue (Some (JNum 1)))
      [Add 0 7 True, Add 0 9 True, Add 0 3 True, Start 1]) =
     [\<lparr>task = 7, promise = 0\<rparr>, \<lparr>task = 9, promise = 1\<rparr>, \<lparr>task = 3, promise = 2\<rparr>] \<and>
   promiseState (exec_re exampleRun exampleBody (PromiseQueue (Some (JNum 1)))
      [Add 0 7 True, Add 0 9 True, Add 0 3 True, Start 1]) 0 = Pending \<and>
   promiseState (processNextTask_re exampleRun exampleBody 1
      (exec_re exampleRun exampleBody (PromiseQueue (Some (JNum 1)))
         [Add 0 7 True, Add 0 9 True, Add 0 3 True, Start 1])) 0 = Rejected 99 \<and>
   promiseState (processNextTask_re exampleRun exampleBody 1
      (exec_re exampleRun exampleBody (PromiseQueue (Some (JNum 1)))
         [Add 0 7 True, Add 0 9 True, Add 0 3 True, Start 1])) 1 = Pending \<and>
   tasks (fire_re exampleRun exampleBody 1 1
      (exec_re exampleRun exampleBody (PromiseQueue (Some (JNum 1)))
         [Add 0 7 True, Add 0 9 True, Add 0 3 True, Start 1])) =
     [\<lparr>task = 9, promise = 1\<rparr>, \<lparr>task = 3, promise = 2\<rparr>] \<and>
   timers (fire_re exampleRun exampleBody 1 1
      (exec_re exampleRun exampleBody (PromiseQueue (Some (JNum 1)))
         [Add 0 7 True, Add 0 9 True, Add 0 3 True, Start 1])) \<noteq> [] \<and>
   promiseState (processNextTask_re exampleRun exampleBody 1001
      (exec_re exampleRun exampleBody (PromiseQueue (Some (JNum 1)))
         [Add 0 7 True, Add 0 9 True, Add 0 3 True, Start 1, Fire 1 1])) 1 = Rejected 5 \<and>
   promiseState (processNextTask_re exampleRun exampleBody 2001
      (exec_re exampleRun exampleBody (PromiseQueue (Some (JNum 1)))
         [Add 0 7 True, Add 0 9 True, Add 0 3 True, Start 1, Fire 1 1, Fire 1001 2])) 2 = Fulfilled 30"
proof -
  let ?q0 = "exec_re exampleRun exampleBody (PromiseQueue (Some (JNum 1)))
      [Add 0 7 True, Add 0 9 True, Add 0 3 True, Start 1]"
  let ?q1 = "exec_re exampleRun exampleBody (PromiseQueue (Some (JNum 1)))
      [Add 0 7 True, Add 0 9 True, Add 0 3 True, Start 1, Fire 1 1]"
  let ?q2 = "exec_re exampleRun exampleBody (PromiseQueue (Some (JNum 1)))
      [Add 0 7 True, Add 0 9 True, Add 0 3 True, Start 1, Fire 1 1, Fire 1001 2]"
  let ?i7 = "\<lparr>task = 7::nat, promise = 0\<rparr>"
  let ?i9 = "\<lparr>task = 9::nat, promise = 1\<rparr>"
  let ?i3 = "\<lparr>task = 3::nat, promise = 2\<rparr>"
  have h0: "tasks ?q0 = ?i7 # [?i9, ?i3]"
    by (simp add: queue_defs re_defs)
  have h1: "tasks ?q1 = ?i9 # [?i3]"
    by (simp add: queue_defs re_defs)
  have h2: "tasks ?q2 = ?i3 # []"
    by (simp add: queue_defs re_defs)
  have o: "(1::nat) \<in> set (map fst (timers ?q0))"
    by (simp add: queue_defs re_defs)
  have p: "promiseState ?q0 1 = Pending"
    by (simp add: queue_defs re_defs promiseState_def)
  have b: "exampleBody (task ?i7) = []"
    by (simp add: exampleBody_def)
  note t0 = settled_once_with_outcome [OF h0, of 1]
  note t1 = settled_once_with_outcome [OF h1, of 1001]
  note t2 = settled_once_with_outcome [OF h2, of 2001]
  from t0 have "promiseState ?q0 (promise ?i7) = Pending"
    by blast
  then have a1: "promiseState ?q0 0 = Pending"
    by simp
  from t0 have "promiseState (processNextTask_re exampleRun exampleBody 1 ?q0) (promise ?i7) =
     (case exampleRun (task ?i7) of
        Return (Plain v) \<Rightarrow> Fulfilled v | Return (Thenable st) \<Rightarrow> st | Throw e \<Rightarrow> Rejected e)"
    by blast
  then have a2: "promiseState (processNextTask_re exampleRun exampleBody 1 ?q0) 0 = Rejected 99"
    by (simp add: exampleRun_def)
  from t0 have "\<forall>p. p \<noteq> promise ?i7 \<longrightarrow>
      promiseState (processNextTask_re exampleRun exampleBody 1 ?q0) p = promiseState ?q0 p"
    by blast
  then have "promiseState (processNextTask_re exampleRun exampleBody 1 ?q0) 1 = promiseState ?q0 1"
    by simp
  with p have a3: "promiseState (processNextTask_re exampleRun exampleBody 1 ?q0) 1 = Pending"
    by simp
  from t0 o b have a4: "tasks (fire_re exampleRun exampleBody 1 1 ?q0) = [?i9, ?i3]"
    by blast
  from t0 o have "tasks (fire_re exampleRun exampleBody 1 1 ?q0) = [] \<or>
      timers (fire_re exampleRun exampleBody 1 1 ?q0) \<noteq> []"
    by blast
  with a4 have a5: "timers (fire_re exampleRun exampleBody 1 1 ?q0) \<noteq> []"
    by simp
  from t1 have "promiseState (processNextTask_re exampleRun exampleBody 1001 ?q1) (promise ?i9) =
     (case exampleRun (task ?i9) of
        Return (Plain v) \<Rightarrow> Fulfilled v | Return (Thenable st) \<Rightarrow> st | Throw e \<Rightarrow> Rejected e)"
    by blast
  then have a6: "promiseState (processNextTask_re exampleRun exampleBody 1001 ?q1) 1 = Rejected 5"
    by (simp add: exampleRun_def)
  from t2 have "promiseState (processNextTask_re exampleRun exampleBody 2001 ?q2) (promise ?i3) =
     (case exampleRun (task ?i3) of
        Return (Plain v) \<Rightarrow> Fulfilled v | Return (Thenable st) \<Rightarrow> st | Throw e \<Rightarrow> Rejected e)"
    by blast
  then have a7: "promiseState (processNextTask_re exampleRun exampleBody 2001 ?q2) 2 = Fulfilled 30"
    by (simp add: exampleRun_def)
  from h0 a1 a2 a3 a4 a5 a6 a7 show ?thesis by simp
qed

section \<open>A timeout that finds the queue empty\<close>

text \<open>
  C10: when an outstanding timeout fires and the queue has no tasks, the dequeuing does
  nothing: no operation is called and no promise is settled. The firing sets the
  timestamp of the last task and clears the handle; a consistent queue stays consistent,
  with no timeout left. The engine has no failing step of its own: the only exception it
  can meet is the one an operation throws, which becomes a rejection.
\<close>

theorem fire_on_empty_queue:
  assumes "tasks q = []" and "h \<in> set (map fst (timers q))"
  shows "processNextTask run q = q \<and>
         fire run now h q =
           q\<lparr>timers := filter (\<lambda>t. fst t \<noteq> h) (timers q), lastTaskTimestamp := Some now,
             currentTaskTimeoutId := None\<rparr> \<and>
         called (fire run now h q) = called q \<and>
         settled (fire run now h q) = settled q \<and>
         (\<forall>p. promiseState (fire run now h q) p = promiseState q p) \<and>
         tasks (fire run now h q) = [] \<and>
         isActive (fire run now h q) = isActive q \<and>
         h \<notin> set (map fst (timers (fire run now h q))) \<and>
         (consistent run q \<longrightarrow>
            consistent run (fire run now h q) \<and> timers (fire run now h q) = [])"
proof -
  note f = fire_Nil [OF assms(2,1), of run now]
  have 1: "processNextTask run q = q" using assms(1) by (rule processNextTask_Nil)
  have 2: "consistent run q \<longrightarrow> consistent run (fire run now h q) \<and> timers (fire run now h q) = []"
  proof
    assume c: "consistent run q"
    then have c1: "consistent run (fire run now h q)" by (rule consistent_fire)
    have "currentTaskTimeoutId (fire run now h q) = None" by (simp add: f)
    with c1 have "map fst (timers (fire run now h q)) = []" by (simp add: consistent_def)
    then have "timers (fire run now h q) = []" by simp
    with c1 show "consistent run (fire run now h q) \<and> timers (fire run now h q) = []" by simp
  qed
  have 3: "called (fire run now h q) = called q \<and>
         settled (fire run now h q) = settled q \<and>
         (\<forall>p. promiseState (fire run now h q) p = promiseState q p) \<and>
         tasks (fire run now h q) = [] \<and>
         isActive (fire run now h q) = isActive q \<and>
         h \<notin> set (map fst (timers (fire run now h q)))"
    using assms(1) by (auto simp add: f promiseState_def)
  from 1 2 3 f show ?thesis by blast
qed

theorem fire_on_empty_queue_witness:
  "tasks (exec exampleRun (PromiseQueue (Some (JNum 1))) [Add 0 1 True, Start 1000, Remove 1]) = [] \<and>
   timers (exec exampleRun (PromiseQueue (Some (JNum 1))) [Add 0 1 True, Start 1000, Remove 1]) = [(1, JNum 0)] \<and>
   called (fire exampleRun 1000 1
     (exec exampleRun (PromiseQueue (Some (JNum 1))) [Add 0 1 True, Start 1000, Remove 1])) = [] \<and>
   settled (fire exampleRun 1000 1
     (exec exampleRun (PromiseQueue (Some (JNum 1))) [Add 0 1 True, Start 1000, Remove 1])) = [] \<and>
   timers (fire exampleRun 1000 1
     (exec exampleRun (PromiseQueue (Some (JNum 1))) [Add 0 1 True, Start 1000, Remove 1])) = []"
proof -
  let ?q = "exec exampleRun (PromiseQueue (Some (JNum 1))) [Add 0 1 True, Start 1000, Remove 1]"
  have h1: "tasks ?q = []" by (simp add: queue_defs)
  have t: "timers ?q = [(1, JNum 0)]" by (simp add: queue_defs)
  then have h2: "(1::nat) \<in> set (map fst (timers ?q))" by simp
  have c: "consistent exampleRun ?q" by (rule consistent_reachable)
  have e: "called ?q = []" "settled ?q = []" by (simp_all add: queue_defs)
  note w = fire_on_empty_queue [OF h1 h2, of exampleRun 1000]
  from w have 1: "called (fire exampleRun 1000 1 ?q) = called ?q" by blast
  from w have 2: "settled (fire exampleRun 1000 1 ?q) = settled ?q" by blast
  from w c have 3: "timers (fire exampleRun 1000 1 ?q) = []" by blast
  from h1 t 1 2 3 e show ?thesis by simp
qed

section \<open>Stopping\<close>

text \<open>
  C4, as stated: \<^verbatim>\<open>stop\<close> on a started queue sets the timestamp of the last task to
  \<^verbatim>\<open>null\<close> also when no timeout is outstanding, so that the next task after a restart
  runs at once. It does not: a queue of rate 1 that ran its only task at time 1000 has no
  timeout outstanding; stopped, it keeps the timestamp 1000, and a task added before the
  restart at time 1100 waits 900.
\<close>

theorem stop_keeps_timestamp_counterexample:
  "isActive (exec exampleRun (PromiseQueue (Some (JNum 1))) [Start 1000, Add 1000 1 True, Fire 1000 1]) \<and>
   timers (exec exampleRun (PromiseQueue (Some (JNum 1))) [Start 1000, Add 1000 1 True, Fire 1000 1]) = [] \<and>
   lastTaskTimestamp (stop
     (exec exampleRun (PromiseQueue (Some (JNum 1))) [Start 1000, Add 1000 1 True, Fire 1000 1])) = Some 1000 \<and>
   lastTaskTimestamp (stop
     (exec exampleRun (PromiseQueue (Some (JNum 1))) [Start 1000, Add 1000 1 True, Fire 1000 1])) \<noteq> None \<and>
   timers (exec exampleRun (PromiseQueue (Some (JNum 1)))
     [Start 1000, Add 1000 1 True, Fire 1000 1, Stop, Add 1100 2 True, Start 1100]) = [(2, JNum 900)]"
  by (simp add: queue_defs)

text \<open>
  C4, amended: \<^verbatim>\<open>stop\<close> marks a started queue as stopped. When the queue holds the
  handle of a timeout, \<^verbatim>\<open>stop\<close> cancels that timeout and sets the handle and the
  timestamp of the last task to \<^verbatim>\<open>null\<close>, so that a later \<^verbatim>\<open>start\<close> arms the head
  task with a wait of 0; in a consistent state no timeout is left outstanding. When the
  queue holds no handle, \<^verbatim>\<open>stop\<close> changes nothing but the flag: the timestamp stays.
  On a stopped queue \<^verbatim>\<open>stop\<close> changes nothing.
\<close>

theorem stop_cancels_armed_timer:
  "(isActive q \<longrightarrow> \<not> isActive (stop q)) \<and>
   (isActive q \<and> currentTaskTimeoutId q = Some h \<longrightarrow>
      stop q = q\<lparr>isActive := False, timers := filter (\<lambda>t. fst t \<noteq> h) (timers q),
                 currentTaskTimeoutId := None, lastTaskTimestamp := None\<rparr>) \<and>
   (isActive q \<and> currentTaskTimeoutId q = None \<longrightarrow> stop q = q\<lparr>isActive := False\<rparr>) \<and>
   (\<not> isActive q \<longrightarrow> stop q = q) \<and>
   (isActive q \<and> consistent run q \<longrightarrow>
      timers (stop q) = [] \<and> currentTaskTimeoutId (stop q) = None) \<and>
   (isActive q \<and> consistent run q \<and> currentTaskTimeoutId q = Some h \<and> tasks q \<noteq> [] \<longrightarrow>
      lastTaskTimestamp (stop q) = None \<and>
      timers (snd (start now (stop q))) = [(nextTimerId q, JNum 0)])"
proof -
  have 1: "isActive q \<longrightarrow> \<not> isActive (stop q)"
    by (simp add: stop_def clearInterval_def Let_def split: option.splits)
  have 2: "isActive q \<and> currentTaskTimeoutId q = Some h \<longrightarrow>
      stop q = q\<lparr>isActive := False, timers := filter (\<lambda>t. fst t \<noteq> h) (timers q),
                 currentTaskTimeoutId := None, lastTaskTimestamp := None\<rparr>"
    by (simp add: stop_def clearInterval_def Let_def)
  have 3: "isActive q \<and> currentTaskTimeoutId q = None \<longrightarrow> stop q = q\<lparr>isActive := False\<rparr>"
    by (simp add: stop_def Let_def)
  have 4: "\<not> isActive q \<longrightarrow> stop q = q"
    by (simp add: stop_def)
  have 5: "isActive q \<and> consistent run q \<longrightarrow>
      timers (stop q) = [] \<and> currentTaskTimeoutId (stop q) = None"
  proof
    assume a: "isActive q \<and> consistent run q"
    then have "consistent run (stop q)" by (simp add: consistent_stop)
    moreover from a have "\<not> isActive (stop q)" using 1 by simp
    ultimately have "timers (stop q) = []" by (simp add: consistent_def)
    moreover from a have "currentTaskTimeoutId (stop q) = None"
      by (simp add: stop_def clearInterval_def Let_def split: option.splits)
    ultimately show "timers (stop q) = [] \<and> currentTaskTimeoutId (stop q) = None" by simp
  qed
  have 6: "isActive q \<and> consistent run q \<and> currentTaskTimeoutId q = Some h \<and> tasks q \<noteq> [] \<longrightarrow>
      lastTaskTimestamp (stop q) = None \<and>
      timers (snd (start now (stop q))) = [(nextTimerId q, JNum 0)]"
  proof
    assume a: "isActive q \<and> consistent run q \<and> currentTaskTimeoutId q = Some h \<and> tasks q \<noteq> []"
    with 2 have s: "stop q = q\<lparr>isActive := False, timers := filter (\<lambda>t. fst t \<noteq> h) (timers q),
                 currentTaskTimeoutId := None, lastTaskTimestamp := None\<rparr>" by simp
    from a 5 have e: "timers (stop q) = []" by simp
    with s have f: "filter (\<lambda>t. fst t \<noteq> h) (timers q) = []" by simp
    from a show "lastTaskTimestamp (stop q) = None \<and>
      timers (snd (start now (stop q))) = [(nextTimerId q, JNum 0)]"
      by (simp add: s f start_def sched_defs)
  qed
  from 1 2 3 4 5 6 show ?thesis by blast
qed

theorem stop_cancels_armed_timer_witness:
  "isActive (exec exampleRun (PromiseQueue (Some (JNum 1)))
      [Start 1000, Add 1000 1 True, Fire 1000 1, Add 1400 2 True]) \<and>
   timers (exec exampleRun (PromiseQueue (Some (JNum 1)))
      [Start 1000, Add 1000 1 True, Fire 1000 1, Add 1400 2 True]) = [(2, JNum 600)] \<and>
   \<not> isActive (stop (exec exampleRun (PromiseQueue (Some (JNum 1)))
      [Start 1000, Add 1000 1 True, Fire 1000 1, Add 1400 2 True])) \<and>
   timers (stop (exec exampleRun (PromiseQueue (Some (JNum 1)))
      [Start 1000, Add 1000 1 True, Fire 1000 1, Add 1400 2 True])) = [] \<and>
   lastTaskTimestamp (stop (exec exampleRun (PromiseQueue (Some (JNum 1)))
      [Start 1000, Add 1000 1 True, Fire 1000 1, Add 1400 2 True])) = None \<and>
   timers (snd (start 1500 (stop (exec exampleRun (PromiseQueue (Some (JNum 1)))
      [Start 1000, Add 1000 1 True, Fire 1000 1, Add 1400 2 True])))) = [(3, JNum 0)] \<and>
   stop (exec exampleRun (PromiseQueue (Some (JNum 1))) [Start 1000, Add 1000 1 True, Fire 1000 1]) =
     (exec exampleRun (PromiseQueue (Some (JNum 1))) [Start 1000, Add 1000 1 True, Fire 1000 1])
       \<lparr>isActive := False\<rparr> \<and>
   stop (PromiseQueue None :: (nat, int) queue) = PromiseQueue None"
proof -
  let ?q = "exec exampleRun (PromiseQueue (Some (JNum 1)))
      [Start 1000, Add 1000 1 True, Fire 1000 1, Add 1400 2 True]"
  let ?q' = "exec exampleRun (PromiseQueue (Some (JNum 1))) [Start 1000, Add 1000 1 True, Fire 1000 1]"
  have a: "isActive ?q" by (simp add: queue_defs)
  have t: "timers ?q = [(2, JNum 600)]" by (simp add: queue_defs)
  have i: "currentTaskTimeoutId ?q = Some 2" by (simp add: queue_defs)
  have n: "tasks ?q \<noteq> []" by (simp add: queue_defs)
  have k: "nextTimerId ?q = 3" by (simp add: queue_defs)
  have c: "consistent exampleRun ?q" by (rule consistent_reachable)
  note w = stop_cancels_armed_timer [of ?q 2 exampleRun 1500]
  from w a have 1: "\<not> isActive (stop ?q)" by blast
  from w a c have 2: "timers (stop ?q) = []" by blast
  from w a c i n have 3: "lastTaskTimestamp (stop ?q) = None \<and>
      timers (snd (start 1500 (stop ?q))) = [(nextTimerId ?q, JNum 0)]" by blast
  have a': "isActive ?q'" and i': "currentTaskTimeoutId ?q' = None" by (simp_all add: queue_defs)
  from stop_cancels_armed_timer [of ?q' 0 exampleRun 0] a' i'
  have 4: "stop ?q' = ?q'\<lparr>isActive := False\<rparr>" by blast
  have s: "\<not> isActive (PromiseQueue None :: (nat, int) queue)" by (simp add: PromiseQueue_fields)
  from stop_cancels_armed_timer [of "PromiseQueue None :: (nat, int) queue" 0 exampleRun 0] s
  have 5: "stop (PromiseQueue None :: (nat, int) queue) = PromiseQueue None" by blast
  from a t 1 2 3 4 5 k show ?thesis by simp
qed

end
